theory Spec2Isabelle
  imports Complex_Main "HOL-Library.AList" "HOL-Library.List_Lexorder" "HOL-Library.Char_ord"
    "HOL-Library.Sublist" "HOL-Library.Log_Nat"
begin

section \<open>Data model (architecture\_model.py)\<close>

text \<open>
  Python strings are \<open>string\<close>; with \<open>List_Lexorder\<close> and \<open>Char_ord\<close> they are ordered
  lexicographically by character code, which is the order \<open>sorted\<close> uses on \<open>str\<close>.
  A \<open>dict\<close> is an association list in insertion order: \<open>d[k]\<close> is \<open>map_of d k\<close> (with
  \<open>None\<close> for the \<open>KeyError\<close>), \<open>d[k] = v\<close> is \<open>AList.update k v d\<close> (replace in place, or
  append a new key at the end), \<open>d.keys()\<close> is \<open>map fst d\<close>, \<open>d.values()\<close> is \<open>map snd d\<close>.
  The keys of a real \<open>dict\<close> are pairwise different: \<open>distinct (map fst d)\<close>.
  A Python \<open>float\<close> is the rational it denotes. The failure simulator adds multiples of
  \<open>0.5\<close> only, which floats hold exactly, so its arithmetic is that of the rationals; the
  report aggregation divides and rounds to decimals, and its operations round to the
  nearest float (see the section on float arithmetic).
\<close>

record Component =
  name :: string
  ctype :: string
  public :: bool
  depends_on :: "string list"
  criticality :: string

record Architecture =
  system_name :: string
  components :: "(string \<times> Component) list"

type_synonym graph = "(string \<times> string list) list"

datatype exn = ValueError string | KeyError string

text \<open>\<open>d[k].append(v)\<close>: the lookup raises \<open>KeyError\<close> on a missing key.\<close>

definition dict_append :: "graph \<Rightarrow> string \<Rightarrow> string \<Rightarrow> exn + graph" where
  "dict_append d k v =
     (case map_of d k of
        None \<Rightarrow> Inl (KeyError k)
      | Some vs \<Rightarrow> Inr (AList.update k (vs @ [v]) d))"

text \<open>\<open>d.setdefault(k, v)\<close>, used for its effect on \<open>d\<close> only.\<close>

definition setdefault :: "graph \<Rightarrow> string \<Rightarrow> string list \<Rightarrow> graph" where
  "setdefault d k v = (if k \<in> set (map fst d) then d else AList.update k v d)"

text \<open>The dict comprehension \<open>{name: [] for name in components.keys()}\<close>.\<close>

fun empty_lists :: "string list \<Rightarrow> graph \<Rightarrow> graph" where
  "empty_lists [] d = d"
| "empty_lists (nm # names) d = empty_lists names (AList.update nm [] d)"

text \<open>The inner loop \<open>for dep in comp.depends_on\<close> of \<open>build_dependency_graphs\<close>.\<close>

fun add_dependencies :: "string \<Rightarrow> string list \<Rightarrow> graph \<times> graph \<Rightarrow> exn + graph \<times> graph" where
  "add_dependencies nm [] (forward_graph, reverse_graph) = Inr (forward_graph, reverse_graph)"
| "add_dependencies nm (dep # deps) (forward_graph, reverse_graph) =
     (case dict_append forward_graph nm dep of
        Inl e \<Rightarrow> Inl e
      | Inr forward_graph1 \<Rightarrow>
          (let reverse_graph1 =
                 (if dep \<notin> set (map fst reverse_graph)
                  then AList.update dep [] reverse_graph else reverse_graph)
           in case dict_append reverse_graph1 dep nm of
                Inl e \<Rightarrow> Inl e
              | Inr reverse_graph2 \<Rightarrow> add_dependencies nm deps (forward_graph1, reverse_graph2)))"

text \<open>The outer loop \<open>for name, comp in components.items()\<close>.\<close>

fun add_components :: "(string \<times> Component) list \<Rightarrow> graph \<times> graph \<Rightarrow> exn + graph \<times> graph" where
  "add_components [] gs = Inr gs"
| "add_components ((nm, cmp) # rest) (forward_graph, reverse_graph) =
     (case add_dependencies nm (depends_on cmp)
             (AList.update nm [] forward_graph, reverse_graph) of
        Inl e \<Rightarrow> Inl e
      | Inr gs \<Rightarrow> add_components rest gs)"

text \<open>The final loop: every node appears in both dicts.\<close>

fun ensure_nodes :: "string list \<Rightarrow> graph \<times> graph \<Rightarrow> graph \<times> graph" where
  "ensure_nodes [] gs = gs"
| "ensure_nodes (nm # names) (forward_graph, reverse_graph) =
     ensure_nodes names (setdefault forward_graph nm [], setdefault reverse_graph nm [])"

definition build_dependency_graphs :: "Architecture \<Rightarrow> exn + graph \<times> graph" where
  "build_dependency_graphs arch =
     (let comps = components arch;
          forward_graph = [];
          reverse_graph = empty_lists (map fst comps) []
      in case add_components comps (forward_graph, reverse_graph) of
           Inl e \<Rightarrow> Inl e
         | Inr gs \<Rightarrow> Inr (ensure_nodes (map fst comps) gs))"

section \<open>Failure simulation (simulation.py)\<close>

record FailureResult =
  failed_component :: string
  impacted_components :: "string list"
  user_visible_impact :: bool
  severity_score :: rat
  result_notes :: string

definition get_public_entrypoints :: "Architecture \<Rightarrow> string list" where
  "get_public_entrypoints arch = map fst (filter (\<lambda>(nm, cmp). public cmp) (components arch))"

text \<open>\<open>reverse_graph.get(current, [])\<close>.\<close>

definition graph_get :: "graph \<Rightarrow> string \<Rightarrow> string list" where
  "graph_get g k = (case map_of g k of None \<Rightarrow> [] | Some vs \<Rightarrow> vs)"

text \<open>
  The loop \<open>for dependent in ...: if dependent not in impacted: stack.append(dependent)\<close>.
  The stack is the Python list: its top is its last element.
\<close>

fun push_dependents :: "string list \<Rightarrow> string list \<Rightarrow> string list \<Rightarrow> string list" where
  "push_dependents impacted [] stack = stack"
| "push_dependents impacted (dep # deps) stack =
     push_dependents impacted deps
       (if dep \<notin> set impacted then stack @ [dep] else stack)"

text \<open>
  The worklist loop \<open>while stack: ...\<close>. Nothing in its text bounds the number of
  iterations, so it is a partial function: \<open>None\<close> stands for a loop that never ends.
  The set \<open>impacted\<close> is kept as the list of its members in the order they were added.
\<close>

partial_function (option) traverse :: "graph \<Rightarrow> string list \<Rightarrow> string list \<Rightarrow> string list option" where
  "traverse reverse_graph stack impacted =
     (if stack = [] then Some impacted
      else
        let current = last stack; stack1 = butlast stack
        in if current \<in> set impacted then traverse reverse_graph stack1 impacted
           else
             let impacted1 = impacted @ [current]
             in traverse reverse_graph
                  (push_dependents impacted1 (graph_get reverse_graph current) stack1) impacted1)"

declare traverse.simps [code]

definition critical_types :: "string set" where
  "critical_types = {''database'', ''gateway'', ''external_api'', ''queue''}"

text \<open>
  \<open>str.lower()\<close> on the ASCII letters. Only the comparisons with \<open>''high''\<close> and
  \<open>''medium''\<close> read its result, and no character outside \<open>A..Z\<close> is lowered to one of
  their letters.
\<close>

definition lower_char :: "char \<Rightarrow> char" where
  "lower_char c = (if CHR ''A'' \<le> c \<and> c \<le> CHR ''Z'' then char_of (of_char c + (32::nat)) else c)"

definition lower :: "string \<Rightarrow> string" where
  "lower s = map lower_char s"

text \<open>\<open>round(x, 2)\<close>: to the nearest multiple of \<open>1/100\<close>, a tie going to the even one.\<close>

definition round_half_even :: "rat \<Rightarrow> int" where
  "round_half_even q =
     (let f = \<lfloor>q\<rfloor>; d = q - of_int f
      in if d < 1 / 2 then f else if 1 / 2 < d then f + 1 else if even f then f else f + 1)"

definition round2 :: "rat \<Rightarrow> rat" where
  "round2 x = of_int (round_half_even (x * 100)) / 100"

text \<open>The loop \<open>for name in impacted_components\<close> of \<open>compute_severity\<close>.\<close>

fun severity_loop :: "(string \<times> Component) list \<Rightarrow> string list \<Rightarrow> rat \<Rightarrow> exn + rat" where
  "severity_loop comps [] score = Inr score"
| "severity_loop comps (nm # rest) score =
     (case map_of comps nm of
        None \<Rightarrow> Inl (KeyError nm)
      | Some cmp \<Rightarrow>
          (let score1 = (if ctype cmp \<in> critical_types then score + 1 / 2 else score);
               crit = lower (criticality cmp);
               score2 = (if crit = ''high'' then score1 + 1
                         else if crit = ''medium'' then score1 + 1 / 2
                         else score1)
           in severity_loop comps rest score2))"

definition compute_severity :: "Architecture \<Rightarrow> string list \<Rightarrow> bool \<Rightarrow> exn + rat" where
  "compute_severity arch impacted user_visible =
     (let score0 = 0 + min (of_nat (length impacted) * 1) 5;
          score1 = (if user_visible then score0 + 3 else score0)
      in case severity_loop (components arch) impacted score1 of
           Inl e \<Rightarrow> Inl e
         | Inr score2 \<Rightarrow>
             (let score3 = (if score2 > 10 then 10 else score2);
                  score4 = (if score3 < 0 then 0 else score3)
              in Inr (round2 score4)))"

definition not_found_message :: "string \<Rightarrow> string" where
  "not_found_message failed =
     ''Component '' @ [CHR 0x27] @ failed @ [CHR 0x27] @ '' not found in architecture.''"

text \<open>
  \<open>simulate_failure\<close>: \<open>None\<close> when the worklist loop does not end, \<open>Some (Inl e)\<close> when
  the call raises \<open>e\<close>, \<open>Some (Inr r)\<close> when it returns \<open>r\<close>.
\<close>

definition simulate_failure :: "Architecture \<Rightarrow> string \<Rightarrow> (exn + FailureResult) option" where
  "simulate_failure arch failed =
     (if failed \<notin> set (map fst (components arch))
      then Some (Inl (ValueError (not_found_message failed)))
      else
        case build_dependency_graphs arch of
          Inl e \<Rightarrow> Some (Inl e)
        | Inr (forward_graph, reverse_graph) \<Rightarrow>
            (case traverse reverse_graph [failed] [] of
               None \<Rightarrow> None
             | Some impacted \<Rightarrow>
                 (let impacted_list = impacted;
                      public_entrypoints = get_public_entrypoints arch;
                      user_visible = (\<exists>nm \<in> set public_entrypoints. nm \<in> set impacted)
                  in case compute_severity arch impacted_list user_visible of
                       Inl e \<Rightarrow> Some (Inl e)
                     | Inr score \<Rightarrow>
                         Some (Inr \<lparr>failed_component = failed,
                                    impacted_components = sort impacted_list,
                                    user_visible_impact = user_visible,
                                    severity_score = score,
                                    result_notes = (if user_visible
                                             then ''User-facing components are affected.''
                                             else ''No direct impact on public entrypoints.'')\<rparr>))))"

text \<open>The loop of \<open>generate_failure_scenarios\<close> that collects the critical components.\<close>

fun collect_critical :: "(string \<times> Component) list \<Rightarrow> string list \<Rightarrow> string list" where
  "collect_critical [] scenarios = scenarios"
| "collect_critical ((nm, cmp) # rest) scenarios =
     collect_critical rest (if ctype cmp \<in> critical_types then scenarios @ [nm] else scenarios)"

definition generate_failure_scenarios :: "Architecture \<Rightarrow> string list" where
  "generate_failure_scenarios arch =
     (let scenarios = collect_critical (components arch) []
      in if scenarios = [] then map fst (components arch) else scenarios)"

section \<open>Security analysis (security\_analysis.py)\<close>

record SecurityRisk =
  component :: string
  risk_type :: string
  severity :: string
  description :: string
  suggestion :: string

text \<open>The three risks that \<open>analyze_security\<close> builds for a component.\<close>

definition dos_risk :: "Component \<Rightarrow> SecurityRisk" where
  "dos_risk cmp =
     \<lparr>component = name cmp,
      risk_type = ''Denial-of-Service'',
      severity = ''High'',
      description =
        name cmp @ '' is a public-facing '' @ ctype cmp @ ''. ''
        @ ''It may be vulnerable to traffic floods (DoS/DDoS) if not protected.'',
      suggestion =
        ''Implement rate limiting, request throttling, and possibly a Web Application Firewall (WAF). ''
        @ ''Monitor traffic patterns and add alerting for abnormal spikes.''\<rparr>"

definition data_exposure_risk :: "Component \<Rightarrow> SecurityRisk" where
  "data_exposure_risk cmp =
     \<lparr>component = name cmp,
      risk_type = ''Data Exposure'',
      severity = ''High'',
      description =
        name cmp @ '' is a database flagged as public. ''
        @ ''Databases should never be directly exposed to the internet.'',
      suggestion =
        ''Place the database in a private subnet and restrict access via application services only.''\<rparr>"

definition external_dependency_risk :: "Component \<Rightarrow> SecurityRisk" where
  "external_dependency_risk cmp =
     \<lparr>component = name cmp,
      risk_type = ''External Dependency Risk'',
      severity = ''Medium'',
      description =
        name cmp @ '' depends on an external API which may fail, be rate limited, or compromised.'',
      suggestion =
        ''Implement timeouts, retries with backoff, and fallback strategies. ''
        @ ''Cache responses where possible and handle failures gracefully.''\<rparr>"

text \<open>
  The state of the loop of \<open>analyze_security\<close>: the set \<open>seen\<close> and the list \<open>risks\<close>.
  \<open>emit key risk\<close> is the block \<open>if key not in seen: seen.add(key); risks.append(risk)\<close>.
\<close>

type_synonym analysis_state = "(string \<times> string) set \<times> SecurityRisk list"

definition emit :: "string \<times> string \<Rightarrow> SecurityRisk \<Rightarrow> analysis_state \<Rightarrow> analysis_state" where
  "emit key risk st =
     (case st of (seen, risks) \<Rightarrow>
        if key \<notin> seen then (insert key seen, risks @ [risk]) else (seen, risks))"

text \<open>Rule 1: a public gateway, service or web client.\<close>

definition rule_dos :: "Component \<Rightarrow> analysis_state \<Rightarrow> analysis_state" where
  "rule_dos cmp st =
     (if public cmp \<and> ctype cmp \<in> {''gateway'', ''service'', ''web_client''}
      then emit (name cmp, ''DoS'') (dos_risk cmp) st else st)"

text \<open>Rule 2: a public database.\<close>

definition rule_public_database :: "Component \<Rightarrow> analysis_state \<Rightarrow> analysis_state" where
  "rule_public_database cmp st =
     (if public cmp \<and> ctype cmp = ''database''
      then emit (name cmp, ''Data Exposure'') (data_exposure_risk cmp) st else st)"

text \<open>Rule 3: an external API.\<close>

definition rule_external_api :: "Component \<Rightarrow> analysis_state \<Rightarrow> analysis_state" where
  "rule_external_api cmp st =
     (if ctype cmp = ''external_api''
      then emit (name cmp, ''External API'') (external_dependency_risk cmp) st else st)"

text \<open>The loop \<open>for comp in arch.components.values()\<close>.\<close>

fun analyze_loop :: "Component list \<Rightarrow> analysis_state \<Rightarrow> analysis_state" where
  "analyze_loop [] st = st"
| "analyze_loop (cmp # rest) st =
     analyze_loop rest (rule_external_api cmp (rule_public_database cmp (rule_dos cmp st)))"

definition analyze_security :: "Architecture \<Rightarrow> SecurityRisk list" where
  "analyze_security arch = snd (analyze_loop (map snd (components arch)) ({}, []))"
section \<open>Float arithmetic (binary64)\<close>

text \<open>
  A Python \<open>float\<close> is an IEEE 754 binary64 number: a rational \<open>m * 2 ^ e\<close> with
  \<open>\<bar>m\<bar> < 2 ^ 53\<close>. An operation on floats returns the float nearest to the exact result,
  a tie going to the even significand. \<open>binade q\<close> is the exponent \<open>e\<close> with
  \<open>2 ^ e \<le> \<bar>q\<bar> < 2 ^ (e + 1)\<close>, so that the floats around \<open>q\<close> are the multiples of
  \<open>2 ^ (e - 52)\<close>, and \<open>fl q\<close> is the float nearest to \<open>q\<close>. The range of the exponent
  is not modelled: with severities between 0 and 10 the aggregation overflows or reaches
  a subnormal only beyond \<open>2 ^ 1000\<close> scenarios. Infinities and NaN are no rationals, and
  no operation of the aggregation makes one from finite floats.
\<close>

definition binade :: "rat \<Rightarrow> int" where
  "binade q =
     (let a = fst (quotient_of \<bar>q\<bar>); b = snd (quotient_of \<bar>q\<bar>);
          d = bitlen a - bitlen b
      in if 2 powi d \<le> \<bar>q\<bar> then d else d - 1)"

definition fl :: "rat \<Rightarrow> rat" where
  "fl q =
     (if q = 0 then 0
      else let s = 2 powi (52 - binade q) in of_int (round_half_even (q * s)) / s)"

text \<open>The operators \<open>+\<close>, \<open>-\<close> and \<open>/\<close> on floats.\<close>

definition fadd :: "rat \<Rightarrow> rat \<Rightarrow> rat" where
  "fadd x y = fl (x + y)"

definition fsub :: "rat \<Rightarrow> rat \<Rightarrow> rat" where
  "fsub x y = fl (x - y)"

definition fdiv :: "rat \<Rightarrow> rat \<Rightarrow> rat" where
  "fdiv x y = fl (x / y)"

text \<open>
  \<open>sum(xs)\<close> on a list of floats: from \<open>0\<close>, one addition for each element, left to
  right (CPython up to 3.11; from 3.12 on \<open>sum\<close> carries a compensation term, which
  changes nothing when the partial sums are floats, as they are for the multiples of
  \<open>0.5\<close> that the failure simulator produces).
\<close>

definition sum_float :: "rat list \<Rightarrow> rat" where
  "sum_float xs = foldl fadd 0 xs"

text \<open>
  \<open>round(x, 2)\<close> on a float: the decimal with two places nearest to the exact value of
  \<open>x\<close>, a tie going to the even one, and then the float nearest to that decimal.
\<close>

definition round_float :: "rat \<Rightarrow> rat" where
  "round_float x = fl (round2 x)"


section \<open>Run context (agent\_context.py)\<close>

text \<open>The values that events, the shared state and the advisory replies carry.\<close>

datatype pyval =
  PNone | PBool bool | PInt int | PFloat rat | PStr string
  | PList "pyval list" | PDict "(string \<times> pyval) list"

record AgentEvent =
  agent_name :: string
  step :: string
  details :: "(string \<times> pyval) list"

record AgentContext =
  run_id :: string
  shared_state :: "(string \<times> pyval) list"
  events :: "AgentEvent list"

text \<open>\<open>AgentContext.log\<close>: the keyword arguments are the details of the event.\<close>

definition log_event ::
  "AgentContext \<Rightarrow> string \<Rightarrow> string \<Rightarrow> (string \<times> pyval) list \<Rightarrow> AgentContext" where
  "log_event context agent step_name kwargs =
     context\<lparr>events := events context
                @ [\<lparr>agent_name = agent, step = step_name, details = kwargs\<rparr>]\<rparr>"

section \<open>Report aggregation (orchestrator.py)\<close>

record ScenarioSummary =
  scenario_name :: string
  failed_component :: string
  severity :: rat
  user_visible_impact :: bool
  impacted_components :: "string list"

record SystemReport =
  system_name :: string
  scenarios :: "ScenarioSummary list"
  security_risks :: "SecurityRisk list"
  overall_resilience_score :: rat
  worst_case_severity :: rat

text \<open>
  \<open>ReportingAgent.run\<close>. \<open>if scenarios:\<close> is the case distinction on the list; in its
  first branch \<open>max(severities)\<close> has an element to start from. \<open>if context:\<close> holds for
  every context object, so it is the case distinction on the optional argument.
  \<open>sum(severities) / len(severities)\<close>, \<open>10.0 - avg_severity\<close> and the two
  \<open>round(_, 2)\<close> are float operations; \<open>len(severities)\<close> is converted exactly (it is
  below \<open>2 ^ 53\<close>), and \<open>max\<close> returns one of its arguments.
\<close>

definition reporting_agent_run ::
  "string \<Rightarrow> Architecture \<Rightarrow> ScenarioSummary list \<Rightarrow> SecurityRisk list
   \<Rightarrow> AgentContext option \<Rightarrow> SystemReport \<times> AgentContext option" where
  "reporting_agent_run self_name arch scenario_list risks context =
     (let context1 =
            map_option (\<lambda>c. log_event c self_name ''start''
                          [(''scenarios'', PInt (int (length scenario_list))),
                           (''risks'', PInt (int (length risks)))]) context;
          (avg_severity, worst_severity) =
            (case scenario_list of
               [] \<Rightarrow> (0, 0)
             | s # rest \<Rightarrow>
                 (let severities = map ScenarioSummary.severity scenario_list
                  in (fdiv (sum_float severities) (of_nat (length severities)),
                      fold max (map ScenarioSummary.severity rest) (ScenarioSummary.severity s))));
          resilience_score = max 0 (fsub 10 avg_severity);
          report =
            \<lparr>system_name = Architecture.system_name arch,
             scenarios = scenario_list,
             security_risks = risks,
             overall_resilience_score = round_float resilience_score,
             worst_case_severity = round_float worst_severity\<rparr>;
          context2 =
            map_option
              (\<lambda>c. log_event
                     (c\<lparr>shared_state :=
                          AList.update ''worst_case_severity''
                            (PFloat (worst_case_severity report))
                            (AList.update ''overall_resilience_score''
                               (PFloat (overall_resilience_score report)) (shared_state c))\<rparr>)
                     self_name ''done'' []) context1
      in (report, context2))"

section \<open>The advisory collaborator (llm\_client.py)\<close>

text \<open>
  The collaborator is outside the program, so what it does is an argument of the model.
  For one request: \<open>GenerateRaises e\<close> when an exception with \<open>str(e) = e\<close> leaves
  \<open>generate_remediation_suggestions\<close> before its \<open>try\<close> (the request, or reading and
  stripping the text of the response); \<open>ResponseText parsed\<close> when the text was read, with
  what \<open>json.loads\<close> makes of it: \<open>None\<close> when it raises, \<open>Some data\<close> when it returns.
  For the client: \<open>NoLLMClient\<close> when the import failed (\<open>LLMClient is None\<close>),
  \<open>InitRaises e\<close> when \<open>LLMClient()\<close> raises, \<open>Client model_name reply\<close> otherwise.
\<close>

datatype llm_reply = GenerateRaises string | ResponseText "pyval option"

datatype llm_client = NoLLMClient | InitRaises string | Client string llm_reply

fun is_dict :: "pyval \<Rightarrow> bool" where
  "is_dict (PDict d) = True"
| "is_dict v = False"

text \<open>
  \<open>LLMClient.generate_remediation_suggestions\<close>: \<open>Inl e\<close> when it raises. The prompt is
  built from the report and the suggestions so far and read by the collaborator only.
\<close>

definition generate_remediation_suggestions :: "llm_reply \<Rightarrow> string + pyval list" where
  "generate_remediation_suggestions reply =
     (case reply of
        GenerateRaises e \<Rightarrow> Inl e
      | ResponseText parsed \<Rightarrow>
          (case parsed of
             None \<Rightarrow> Inr []
           | Some data \<Rightarrow>
               (case data of
                  PList ds \<Rightarrow> Inr (filter is_dict ds)
                | _ \<Rightarrow> Inr [])))"

section \<open>Remediation (remediation\_agent.py)\<close>

text \<open>
  The fields of a suggestion hold strings in the rule-based passes; a suggestion built
  from a reply of the collaborator holds whatever values the reply has under its keys.
\<close>

record RemediationSuggestion =
  category :: pyval
  target :: pyval
  priority :: pyval
  title :: pyval
  details :: pyval

text \<open>The decimal numeral of a natural number, as an f-string prints it.\<close>

definition digit_char :: "nat \<Rightarrow> char" where
  "digit_char d = char_of (of_char CHR ''0'' + d)"

fun decimal :: "nat \<Rightarrow> string" where
  "decimal n =
     (if n < 10 then [digit_char n] else decimal (n div 10) @ [digit_char (n mod 10)])"

text \<open>Pass 1: the suggestion for a low overall resilience.\<close>

definition system_suggestion :: RemediationSuggestion where
  "system_suggestion =
     \<lparr>category = PStr ''resilience'',
      target = PStr ''system'',
      priority = PStr ''high'',
      title = PStr ''Improve overall fault tolerance'',
      details = PStr
        (''The overall resilience score is low. Introduce redundancy (replicated services, ''
         @ ''database failover), implement graceful degradation paths, and validate recovery ''
         @ ''procedures for critical components.'')\<rparr>"

text \<open>Pass 2: the suggestion for a scenario of high severity, by the type of its component.\<close>

definition scenario_suggestion :: "Component \<Rightarrow> ScenarioSummary \<Rightarrow> RemediationSuggestion" where
  "scenario_suggestion cmp scenario =
     (let comp_name = ScenarioSummary.failed_component scenario in
      if ctype cmp = ''database'' then
        \<lparr>category = PStr ''resilience'',
         target = PStr comp_name,
         priority = PStr ''high'',
         title = PStr (''Add replication and backup for '' @ comp_name),
         details = PStr
           (''When '' @ comp_name @ '' fails, it impacts ''
            @ decimal (length (ScenarioSummary.impacted_components scenario))
            @ '' components ''
            @ ''and is user-visible. Configure primary/replica setups, automated failover, and ''
            @ ''regular backup/restore drills.'')\<rparr>
      else if ctype cmp = ''gateway'' then
        \<lparr>category = PStr ''resilience'',
         target = PStr comp_name,
         priority = PStr ''high'',
         title = PStr (''Eliminate single point of failure at '' @ comp_name),
         details = PStr
           (comp_name @ '' is a critical gateway whose failure disrupts user access. ''
            @ ''Add multiple gateway instances behind a load balancer and implement health checks.'')\<rparr>
      else if ctype cmp = ''external_api'' then
        \<lparr>category = PStr ''resilience'',
         target = PStr comp_name,
         priority = PStr ''high'',
         title = PStr (''Introduce circuit breakers and fallbacks for '' @ comp_name),
         details = PStr
           (comp_name @ '' is an external dependency whose failure causes a high-severity impact. ''
            @ ''Use circuit breakers, timeouts, retries with backoff, and possibly alternative providers.'')\<rparr>
      else
        \<lparr>category = PStr ''resilience'',
         target = PStr comp_name,
         priority = PStr ''medium'',
         title = PStr (''Harden '' @ comp_name @ '' against failures''),
         details = PStr
           (comp_name @ '' shows a high-severity failure scenario. Consider adding redundancy, ''
            @ ''better monitoring, and fallback logic specific to this component.'')\<rparr>)"

text \<open>The loop \<open>for scenario in report.scenarios\<close>, with its two \<open>continue\<close>.\<close>

fun scenario_pass ::
  "Architecture \<Rightarrow> ScenarioSummary list \<Rightarrow> RemediationSuggestion list
   \<Rightarrow> RemediationSuggestion list" where
  "scenario_pass arch [] suggestions = suggestions"
| "scenario_pass arch (scenario # rest) suggestions =
     (if ScenarioSummary.severity scenario < 8 then scenario_pass arch rest suggestions
      else
        case map_of (components arch) (ScenarioSummary.failed_component scenario) of
          None \<Rightarrow> scenario_pass arch rest suggestions
        | Some cmp \<Rightarrow>
            scenario_pass arch rest (suggestions @ [scenario_suggestion cmp scenario]))"

text \<open>Pass 3: the loop \<open>for risk in report.security_risks\<close>.\<close>

definition risk_suggestion :: "SecurityRisk \<Rightarrow> RemediationSuggestion" where
  "risk_suggestion risk =
     \<lparr>category = PStr ''security'',
      target = PStr (component risk),
      priority = PStr (if lower (SecurityRisk.severity risk) = ''high'' then ''high'' else ''medium''),
      title = PStr (''Mitigate '' @ risk_type risk @ '' on '' @ component risk),
      details = PStr (suggestion risk)\<rparr>"

fun risk_pass :: "SecurityRisk list \<Rightarrow> RemediationSuggestion list \<Rightarrow> RemediationSuggestion list" where
  "risk_pass [] suggestions = suggestions"
| "risk_pass (risk # rest) suggestions = risk_pass rest (suggestions @ [risk_suggestion risk])"

text \<open>The suggestions after the three rule-based passes.\<close>

definition rule_based_suggestions :: "Architecture \<Rightarrow> SystemReport \<Rightarrow> RemediationSuggestion list" where
  "rule_based_suggestions arch report =
     (let suggestions0 = [];
          suggestions1 = (if overall_resilience_score report \<le> 4
                          then suggestions0 @ [system_suggestion] else suggestions0);
          suggestions2 = scenario_pass arch (scenarios report) suggestions1
      in risk_pass (security_risks report) suggestions2)"

text \<open>
  \<open>s.get(key, default)\<close> on a value of the reply: the value under the key, or the default;
  a value that is no dict has no \<open>get\<close>, and the call raises \<open>AttributeError\<close>.
\<close>

definition type_name :: "pyval \<Rightarrow> string" where
  "type_name v =
     (case v of
        PNone \<Rightarrow> ''NoneType'' | PBool b \<Rightarrow> ''bool'' | PInt i \<Rightarrow> ''int''
      | PFloat x \<Rightarrow> ''float'' | PStr s \<Rightarrow> ''str'' | PList l \<Rightarrow> ''list'' | PDict d \<Rightarrow> ''dict'')"

definition dict_get :: "pyval \<Rightarrow> string \<Rightarrow> pyval \<Rightarrow> string + pyval" where
  "dict_get s key dflt =
     (case s of
        PDict d \<Rightarrow> Inr (case map_of d key of None \<Rightarrow> dflt | Some v \<Rightarrow> v)
      | _ \<Rightarrow> Inl ([CHR 0x27] @ type_name s @ [CHR 0x27]
                   @ '' object has no attribute '' @ [CHR 0x27] @ ''get'' @ [CHR 0x27]))"

text \<open>The suggestion built from one object of the reply; its five lookups run in order.\<close>

definition suggestion_of :: "pyval \<Rightarrow> string + RemediationSuggestion" where
  "suggestion_of s =
     (case dict_get s ''category'' (PStr ''resilience'') of Inl e \<Rightarrow> Inl e | Inr c \<Rightarrow>
      case dict_get s ''target'' (PStr ''system'') of Inl e \<Rightarrow> Inl e | Inr t \<Rightarrow>
      case dict_get s ''priority'' (PStr ''medium'') of Inl e \<Rightarrow> Inl e | Inr p \<Rightarrow>
      case dict_get s ''title'' (PStr ''AI-suggested remediation'') of Inl e \<Rightarrow> Inl e | Inr ti \<Rightarrow>
      case dict_get s ''details'' (PStr '''') of Inl e \<Rightarrow> Inl e | Inr d \<Rightarrow>
        Inr \<lparr>category = c, target = t, priority = p, title = ti, details = d\<rparr>)"

text \<open>
  The loop \<open>for s in extra: suggestions.append(...)\<close>. The list is appended to in place:
  when an iteration raises, the suggestions appended before it stay.
\<close>

fun append_extra ::
  "pyval list \<Rightarrow> RemediationSuggestion list \<Rightarrow> string option \<times> RemediationSuggestion list" where
  "append_extra [] suggestions = (None, suggestions)"
| "append_extra (s # rest) suggestions =
     (case suggestion_of s of
        Inl e \<Rightarrow> (Some e, suggestions)
      | Inr sg \<Rightarrow> append_extra rest (suggestions @ [sg]))"

text \<open>The handler \<open>except Exception as e\<close> of pass 4.\<close>

definition on_llm_failed ::
  "string \<Rightarrow> string \<Rightarrow> RemediationSuggestion list \<Rightarrow> AgentContext option
   \<Rightarrow> RemediationSuggestion list \<times> AgentContext option" where
  "on_llm_failed self_name e suggestions context =
     (suggestions,
      map_option (\<lambda>c. log_event c self_name ''llm_failed'' [(''error'', PStr e)]) context)"

text \<open>Pass 4: the \<open>try\<close> block with its handler, skipped when there is no client class.\<close>

definition advisory_pass ::
  "string \<Rightarrow> llm_client \<Rightarrow> RemediationSuggestion list \<Rightarrow> AgentContext option
   \<Rightarrow> RemediationSuggestion list \<times> AgentContext option" where
  "advisory_pass self_name client suggestions context =
     (case client of
        NoLLMClient \<Rightarrow> (suggestions, context)
      | InitRaises e \<Rightarrow> on_llm_failed self_name e suggestions context
      | Client model_name reply \<Rightarrow>
          (case generate_remediation_suggestions reply of
             Inl e \<Rightarrow> on_llm_failed self_name e suggestions context
           | Inr extra \<Rightarrow>
               (case append_extra extra suggestions of
                  (Some e, suggestions1) \<Rightarrow> on_llm_failed self_name e suggestions1 context
                | (None, suggestions1) \<Rightarrow>
                    (suggestions1,
                     map_option
                       (\<lambda>c. log_event c self_name ''llm_enhanced''
                              [(''added_count'', PInt (int (length extra))),
                               (''model'', PStr model_name)]) context))))"

text \<open>\<open>RemediationAgent.run\<close>: it has no \<open>raise\<close> of its own and catches those of pass 4.\<close>

definition remediation_agent_run ::
  "string \<Rightarrow> llm_client \<Rightarrow> Architecture \<Rightarrow> SystemReport \<Rightarrow> AgentContext option
   \<Rightarrow> RemediationSuggestion list \<times> AgentContext option" where
  "remediation_agent_run self_name client arch report context =
     (let context1 =
            map_option
              (\<lambda>c. log_event c self_name ''start''
                     [(''system_name'', PStr (Architecture.system_name arch)),
                      (''overall_resilience'', PFloat (overall_resilience_score report))])
              context;
          suggestions1 = rule_based_suggestions arch report;
          (suggestions2, context2) = advisory_pass self_name client suggestions1 context1;
          context3 =
            map_option
              (\<lambda>c. log_event
                     (c\<lparr>shared_state :=
                          AList.update ''remediation_suggestion_count''
                            (PInt (int (length suggestions2))) (shared_state c)\<rparr>)
                     self_name ''done'' [(''suggestions'', PInt (int (length suggestions2)))])
              context2
      in (suggestions2, context3))"

section \<open>Notions the properties are stated with\<close>

text \<open>\<open>(a, b) \<in> depends_directly arch\<close>: component \<open>a\<close> lists \<open>b\<close> in its \<open>depends_on\<close>.\<close>

definition depends_directly :: "Architecture \<Rightarrow> (string \<times> string) set" where
  "depends_directly arch =
     {(a, b). \<exists>c. (a, c) \<in> set (components arch) \<and> b \<in> set (depends_on c)}"

text \<open>The edges of a graph dict: from a key to each member of its list.\<close>

definition reverse_edges :: "graph \<Rightarrow> (string \<times> string) set" where
  "reverse_edges g = {(x, y). y \<in> set (graph_get g x)}"

text \<open>The names of the components of a critical type, in the order of the architecture.\<close>

definition critical_names :: "Architecture \<Rightarrow> string list" where
  "critical_names arch =
     map fst (filter (\<lambda>(nm, cmp). ctype cmp \<in> critical_types) (components arch))"

text \<open>What one impacted component adds to the severity: its type, then its criticality.\<close>

definition severity_weight :: "(string \<times> Component) list \<Rightarrow> string \<Rightarrow> rat" where
  "severity_weight comps nm =
     (case map_of comps nm of
        None \<Rightarrow> 0
      | Some cmp \<Rightarrow>
          (if ctype cmp \<in> critical_types then 1 / 2 else 0)
          + (if lower (criticality cmp) = ''high'' then 1
             else if lower (criticality cmp) = ''medium'' then 1 / 2 else 0))"

text \<open>
  The rule table of the security analysis, read for one component: each of the three
  rules that applies gives its risk, in the order of the table.
\<close>

definition table_risks :: "Component \<Rightarrow> SecurityRisk list" where
  "table_risks cmp =
     (if public cmp \<and> ctype cmp \<in> {''gateway'', ''service'', ''web_client''}
      then [dos_risk cmp] else [])
     @ (if public cmp \<and> ctype cmp = ''database'' then [data_exposure_risk cmp] else [])
     @ (if ctype cmp = ''external_api'' then [external_dependency_risk cmp] else [])"

text \<open>The pair on which the risks of a report are to differ.\<close>

definition risk_key :: "SecurityRisk \<Rightarrow> string \<times> string" where
  "risk_key r = (component r, risk_type r)"

text \<open>The key under which \<open>analyze_security\<close> records a risk of one of its three types.\<close>

definition seen_key :: "SecurityRisk \<Rightarrow> string \<times> string" where
  "seen_key r =
     (component r,
      if risk_type r = ''Denial-of-Service'' then ''DoS''
      else if risk_type r = ''Data Exposure'' then ''Data Exposure''
      else ''External API'')"

text \<open>What the loop of \<open>analyze_security\<close> keeps true of its state.\<close>

definition analysis_inv :: "analysis_state \<Rightarrow> bool" where
  "analysis_inv st =
     (case st of (seen, risks) \<Rightarrow>
        (\<forall>r \<in> set risks. seen_key r \<in> seen) \<and> distinct (map risk_key risks))"

text \<open>
  The formula of the report aggregation, as the specification words it:
  \<open>round(clamp(10 - mean(severities), 0, 10), 2)\<close>, a value of type float computed from
  floats, each operation of the formula being the float operation.
\<close>

definition clamp :: "rat \<Rightarrow> rat \<Rightarrow> rat \<Rightarrow> rat" where
  "clamp x lo hi = max lo (min hi x)"

definition mean :: "rat list \<Rightarrow> rat" where
  "mean xs = fdiv (sum_float xs) (of_nat (length xs))"

definition spec_resilience :: "rat list \<Rightarrow> rat" where
  "spec_resilience severities = round_float (clamp (fsub 10 (mean severities)) 0 10)"

text \<open>
  The severity of the data model: a float of the closed interval from 0 to 10 with two
  decimals, that is one that \<open>round(_, 2)\<close> leaves as it is.
\<close>

definition valid_severity :: "rat \<Rightarrow> bool" where
  "valid_severity x \<longleftrightarrow> 0 \<le> x \<and> x \<le> 10 \<and> round_float x = x"

text \<open>The same formula on the rationals, nothing rounded but the result.\<close>

definition exact_resilience :: "rat list \<Rightarrow> rat" where
  "exact_resilience severities =
     round2 (clamp (10 - sum_list severities / of_nat (length severities)) 0 10)"

text \<open>
  The advisory pass, as the specification words it: the failure of the collaborator, if
  there is one; the objects it returned; and the suggestion made of an object, each
  missing field taking its default. The failures are those the specification names:
  the collaborator cannot be reached (\<open>LLMClient()\<close> or the request raises an exception,
  whose message is kept), its response is malformed (\<open>json.loads\<close> raises), or the
  response has the wrong shape (it is JSON, but no array). An array is the shape asked
  for; the client drops those of its elements that are no objects and returns the others.
  Without the client class (\<open>LLMClient is None\<close>) the pass is not attempted.
\<close>

datatype failure = Unreachable string | MalformedResponse | WrongShape

definition advisory_failure :: "llm_client \<Rightarrow> failure option" where
  "advisory_failure client =
     (case client of
        NoLLMClient \<Rightarrow> None
      | InitRaises e \<Rightarrow> Some (Unreachable e)
      | Client model_name reply \<Rightarrow>
          (case reply of
             GenerateRaises e \<Rightarrow> Some (Unreachable e)
           | ResponseText parsed \<Rightarrow>
               (case parsed of
                  None \<Rightarrow> Some MalformedResponse
                | Some data \<Rightarrow>
                    (case data of PList ds \<Rightarrow> None | _ \<Rightarrow> Some WrongShape))))"

text \<open>The events that a run of the remediation logs.\<close>

definition start_event :: "string \<Rightarrow> Architecture \<Rightarrow> SystemReport \<Rightarrow> AgentEvent" where
  "start_event self_name arch report =
     \<lparr>AgentEvent.agent_name = self_name, AgentEvent.step = ''start'',
      AgentEvent.details =
        [(''system_name'', PStr (Architecture.system_name arch)),
         (''overall_resilience'', PFloat (overall_resilience_score report))]\<rparr>"

definition llm_failed_event :: "string \<Rightarrow> string \<Rightarrow> AgentEvent" where
  "llm_failed_event self_name e =
     \<lparr>AgentEvent.agent_name = self_name, AgentEvent.step = ''llm_failed'',
      AgentEvent.details = [(''error'', PStr e)]\<rparr>"

definition llm_enhanced_event :: "string \<Rightarrow> nat \<Rightarrow> string \<Rightarrow> AgentEvent" where
  "llm_enhanced_event self_name added model_name =
     \<lparr>AgentEvent.agent_name = self_name, AgentEvent.step = ''llm_enhanced'',
      AgentEvent.details =
        [(''added_count'', PInt (int added)), (''model'', PStr model_name)]\<rparr>"

definition done_event :: "string \<Rightarrow> nat \<Rightarrow> AgentEvent" where
  "done_event self_name n =
     \<lparr>AgentEvent.agent_name = self_name, AgentEvent.step = ''done'',
      AgentEvent.details = [(''suggestions'', PInt (int n))]\<rparr>"

text \<open>The events of the run context that a run returns, if it returns one.\<close>

definition logged :: "'a \<times> AgentContext option \<Rightarrow> AgentEvent list option" where
  "logged result = map_option events (snd result)"

fun dicts_of :: "pyval list \<Rightarrow> (string \<times> pyval) list list" where
  "dicts_of [] = []"
| "dicts_of (PDict d # vs) = d # dicts_of vs"
| "dicts_of (v # vs) = dicts_of vs"

definition advisory_objects :: "llm_client \<Rightarrow> (string \<times> pyval) list list" where
  "advisory_objects client =
     (case client of
        Client model_name (ResponseText (Some (PList ds))) \<Rightarrow> dicts_of ds
      | _ \<Rightarrow> [])"

definition field_or :: "(string \<times> pyval) list \<Rightarrow> string \<Rightarrow> pyval \<Rightarrow> pyval" where
  "field_or d key dflt = (case map_of d key of None \<Rightarrow> dflt | Some v \<Rightarrow> v)"

definition defaulted_suggestion :: "(string \<times> pyval) list \<Rightarrow> RemediationSuggestion" where
  "defaulted_suggestion d =
     \<lparr>category = field_or d ''category'' (PStr ''resilience''),
      target = field_or d ''target'' (PStr ''system''),
      priority = field_or d ''priority'' (PStr ''medium''),
      title = field_or d ''title'' (PStr ''AI-suggested remediation''),
      details = field_or d ''details'' (PStr '''')\<rparr>"

section \<open>Example architectures\<close>

text \<open>The worked scenario: a public gateway \<open>G\<close> on a service \<open>S\<close> on a database \<open>D\<close>.\<close>

definition worked_architecture :: Architecture where
  "worked_architecture =
     \<lparr>Architecture.system_name = ''worked'',
      components =
        [(''G'', \<lparr>name = ''G'', ctype = ''gateway'', public = True,
                  depends_on = [''S''], criticality = ''medium''\<rparr>),
         (''S'', \<lparr>name = ''S'', ctype = ''service'', public = False,
                  depends_on = [''D''], criticality = ''medium''\<rparr>),
         (''D'', \<lparr>name = ''D'', ctype = ''database'', public = False,
                  depends_on = [], criticality = ''high''\<rparr>)]\<rparr>"

text \<open>A service whose only dependency names no component.\<close>

definition dangling_architecture :: Architecture where
  "dangling_architecture =
     \<lparr>Architecture.system_name = ''dangling'',
      components =
        [(''A'', \<lparr>name = ''A'', ctype = ''service'', public = False,
                  depends_on = [''ghost''], criticality = ''low''\<rparr>)]\<rparr>"

text \<open>Two services that depend on each other, the first also on itself.\<close>

definition cyclic_architecture :: Architecture where
  "cyclic_architecture =
     \<lparr>Architecture.system_name = ''cyclic'',
      components =
        [(''A'', \<lparr>name = ''A'', ctype = ''service'', public = False,
                  depends_on = [''A'', ''B''], criticality = ''low''\<rparr>),
         (''B'', \<lparr>name = ''B'', ctype = ''service'', public = True,
                  depends_on = [''A''], criticality = ''HIGH''\<rparr>)]\<rparr>"

text \<open>
  Two entries whose components carry the same \<open>name\<close> (the keys differ), and an external
  API.
\<close>

definition twin_architecture :: Architecture where
  "twin_architecture =
     \<lparr>Architecture.system_name = ''twin'',
      components =
        [(''a'', \<lparr>name = ''web'', ctype = ''gateway'', public = True,
                  depends_on = [], criticality = ''medium''\<rparr>),
         (''b'', \<lparr>name = ''web'', ctype = ''gateway'', public = True,
                  depends_on = [''a''], criticality = ''medium''\<rparr>),
         (''pay'', \<lparr>name = ''pay'', ctype = ''external_api'', public = False,
                  depends_on = [], criticality = ''high''\<rparr>)]\<rparr>"

text \<open>A scenario summary with a given severity.\<close>

definition scenario_with :: "string \<Rightarrow> rat \<Rightarrow> ScenarioSummary" where
  "scenario_with nm sev =
     \<lparr>scenario_name = nm @ '' FAILURE'', failed_component = nm, severity = sev,
      user_visible_impact = False, impacted_components = [nm]\<rparr>"

text \<open>A report and a run context to run the remediation on.\<close>

definition sample_report :: SystemReport where
  "sample_report =
     \<lparr>system_name = ''worked'',
      scenarios = [scenario_with ''D'' 9, scenario_with ''S'' 6, scenario_with ''X'' 10],
      security_risks = analyze_security worked_architecture,
      overall_resilience_score = fl (167 / 100),
      worst_case_severity = 10\<rparr>"

definition sample_context :: AgentContext where
  "sample_context = \<lparr>run_id = ''run-1'', shared_state = [], events = []\<rparr>"

section \<open>The dependency graphs\<close>

lemma graph_get_update:
  "graph_get (AList.update k v d) x = (if x = k then v else graph_get d x)"
  by (simp add: graph_get_def update_conv')

lemma keys_update: "fst ` set (AList.update k v d) = insert k (fst ` set d)"
  by (simp add: dom_update)

lemma graph_get_missing: "k \<notin> fst ` set d \<Longrightarrow> graph_get d k = []"
  using map_of_eq_None_iff [of d k] by (simp add: graph_get_def)

lemma dict_append_ok:
  assumes "k \<in> fst ` set d"
  shows "\<exists>d'. dict_append d k v = Inr d' \<and> fst ` set d' = fst ` set d
           \<and> (\<forall>x. graph_get d' x = (if x = k then graph_get d k @ [v] else graph_get d x))"
proof (cases "map_of d k")
  case None
  with assms show ?thesis by (simp add: map_of_eq_None_iff)
next
  case (Some vs)
  have a: "dict_append d k v = Inr (AList.update k (vs @ [v]) d)"
    by (simp add: dict_append_def Some)
  have b: "fst ` set (AList.update k (vs @ [v]) d) = fst ` set d"
    using assms by (simp add: keys_update insert_absorb)
  have c: "graph_get d k = vs" by (simp add: graph_get_def Some)
  show ?thesis
    unfolding a using b c by (simp add: graph_get_update)
qed

lemma add_dependencies_ok:
  assumes "nm \<in> fst ` set fw"
  shows "\<exists>fw' rv'. add_dependencies nm deps (fw, rv) = Inr (fw', rv')
           \<and> fst ` set fw' = fst ` set fw
           \<and> fst ` set rv' = fst ` set rv \<union> set deps
           \<and> (\<forall>x. set (graph_get rv' x) = set (graph_get rv x) \<union> (if x \<in> set deps then {nm} else {}))"
  using assms
proof (induction deps arbitrary: fw rv)
  case Nil
  then show ?case by simp
next
  case (Cons dep deps)
  from dict_append_ok [OF Cons.prems, of dep] obtain fw1 where
    f1: "dict_append fw nm dep = Inr fw1" and f2: "fst ` set fw1 = fst ` set fw" by blast
  define rv1 where "rv1 = (if dep \<notin> set (map fst rv) then AList.update dep [] rv else rv)"
  have k1: "fst ` set rv1 = insert dep (fst ` set rv)"
    by (simp add: rv1_def keys_update insert_absorb)
  have g1: "graph_get rv1 x = graph_get rv x" for x
    by (simp add: rv1_def graph_get_update graph_get_missing)
  have "dep \<in> fst ` set rv1" by (simp add: k1)
  from dict_append_ok [OF this, of nm] obtain rv2 where
    r1: "dict_append rv1 dep nm = Inr rv2" and r2: "fst ` set rv2 = fst ` set rv1"
    and r3: "\<forall>x. graph_get rv2 x = (if x = dep then graph_get rv1 dep @ [nm] else graph_get rv1 x)"
    by blast
  have "nm \<in> fst ` set fw1" using f2 Cons.prems by simp
  from Cons.IH [OF this, of rv2] obtain fw' rv' where
    i1: "add_dependencies nm deps (fw1, rv2) = Inr (fw', rv')"
    and i2: "fst ` set fw' = fst ` set fw1"
    and i3: "fst ` set rv' = fst ` set rv2 \<union> set deps"
    and i4: "\<forall>x. set (graph_get rv' x) = set (graph_get rv2 x) \<union> (if x \<in> set deps then {nm} else {})"
    by (elim exE conjE) (rule that)
  have a: "add_dependencies nm (dep # deps) (fw, rv) = Inr (fw', rv')"
    using f1 r1 i1 by (simp add: rv1_def)
  have b: "fst ` set fw' = fst ` set fw" using i2 f2 by simp
  have c: "fst ` set rv' = fst ` set rv \<union> set (dep # deps)"
    unfolding i3 r2 k1 by auto
  have d: "set (graph_get rv' x) =
      set (graph_get rv x) \<union> (if x \<in> set (dep # deps) then {nm} else {})" for x
  proof -
    have "set (graph_get rv' x) = set (graph_get rv2 x) \<union> (if x \<in> set deps then {nm} else {})"
      using i4 by (rule spec)
    moreover have "graph_get rv2 x = (if x = dep then graph_get rv dep @ [nm] else graph_get rv x)"
      using r3 [THEN spec, of x] by (simp add: g1)
    ultimately show ?thesis by (cases "x = dep") auto
  qed
  show ?case
    by (intro exI conjI allI; (rule a b c d))
qed

lemma add_components_ok:
  "\<exists>fw' rv'. add_components comps (fw, rv) = Inr (fw', rv')
     \<and> fst ` set fw' = fst ` set fw \<union> fst ` set comps
     \<and> fst ` set rv' = fst ` set rv \<union> (\<Union>(nm, c) \<in> set comps. set (depends_on c))
     \<and> (\<forall>x. set (graph_get rv' x) =
            set (graph_get rv x) \<union> {nm. \<exists>c. (nm, c) \<in> set comps \<and> x \<in> set (depends_on c)})"
proof (induction comps arbitrary: fw rv)
  case Nil
  then show ?case by simp
next
  case (Cons p comps)
  obtain nm c where p: "p = (nm, c)" by (cases p)
  have "nm \<in> fst ` set (AList.update nm [] fw)" by (simp add: keys_update)
  from add_dependencies_ok [OF this, of "depends_on c" rv] obtain fw1 rv1 where
    s1: "add_dependencies nm (depends_on c) (AList.update nm [] fw, rv) = Inr (fw1, rv1)"
    and s2: "fst ` set fw1 = fst ` set (AList.update nm [] fw)"
    and s3: "fst ` set rv1 = fst ` set rv \<union> set (depends_on c)"
    and s4: "\<forall>x. set (graph_get rv1 x) = set (graph_get rv x) \<union> (if x \<in> set (depends_on c) then {nm} else {})"
    by (elim exE conjE) (rule that)
  from Cons.IH [of fw1 rv1] obtain fw' rv' where
    i1: "add_components comps (fw1, rv1) = Inr (fw', rv')"
    and i2: "fst ` set fw' = fst ` set fw1 \<union> fst ` set comps"
    and i3: "fst ` set rv' = fst ` set rv1 \<union> (\<Union>(nm, c) \<in> set comps. set (depends_on c))"
    and i4: "\<forall>x. set (graph_get rv' x) =
            set (graph_get rv1 x) \<union> {nm. \<exists>c. (nm, c) \<in> set comps \<and> x \<in> set (depends_on c)}"
    by (elim exE conjE) (rule that)
  have a: "add_components (p # comps) (fw, rv) = Inr (fw', rv')"
    using s1 i1 by (simp add: p)
  have b: "fst ` set fw' = fst ` set fw \<union> fst ` set (p # comps)"
    unfolding i2 s2 by (simp add: p keys_update)
  have c: "fst ` set rv' = fst ` set rv \<union> (\<Union>(nm, c) \<in> set (p # comps). set (depends_on c))"
    unfolding i3 s3 by (simp add: p Un_assoc)
  have d: "set (graph_get rv' x) =
            set (graph_get rv x) \<union> {nm. \<exists>c. (nm, c) \<in> set (p # comps) \<and> x \<in> set (depends_on c)}" for x
  proof -
    have "set (graph_get rv' x) =
            set (graph_get rv1 x) \<union> {nm. \<exists>c. (nm, c) \<in> set comps \<and> x \<in> set (depends_on c)}"
      using i4 by (rule spec)
    moreover have "set (graph_get rv1 x) = set (graph_get rv x) \<union> (if x \<in> set (depends_on c) then {nm} else {})"
      using s4 by (rule spec)
    ultimately show ?thesis by (auto simp: p)
  qed
  show ?case
    by (intro exI conjI allI; (rule a b c d))
qed

lemma setdefault_keys: "fst ` set (setdefault d k v) = insert k (fst ` set d)"
  by (simp add: setdefault_def keys_update insert_absorb)

lemma setdefault_get: "graph_get (setdefault d k []) x = graph_get d x"
  by (simp add: setdefault_def graph_get_update graph_get_missing)

lemma ensure_nodes_ok:
  "\<exists>fw' rv'. ensure_nodes names (fw, rv) = (fw', rv')
     \<and> fst ` set fw' = fst ` set fw \<union> set names
     \<and> fst ` set rv' = fst ` set rv \<union> set names
     \<and> (\<forall>x. graph_get rv' x = graph_get rv x)"
proof (induction names arbitrary: fw rv)
  case Nil
  then show ?case by simp
next
  case (Cons nm names)
  from Cons.IH [of "setdefault fw nm []" "setdefault rv nm []"] obtain fw' rv' where
    i1: "ensure_nodes names (setdefault fw nm [], setdefault rv nm []) = (fw', rv')"
    and i2: "fst ` set fw' = fst ` set (setdefault fw nm []) \<union> set names"
    and i3: "fst ` set rv' = fst ` set (setdefault rv nm []) \<union> set names"
    and i4: "\<forall>x. graph_get rv' x = graph_get (setdefault rv nm []) x"
    by (elim exE conjE) (rule that)
  have a: "ensure_nodes (nm # names) (fw, rv) = (fw', rv')" using i1 by simp
  have b: "fst ` set fw' = fst ` set fw \<union> set (nm # names)"
    unfolding i2 by (simp add: setdefault_keys)
  have c: "fst ` set rv' = fst ` set rv \<union> set (nm # names)"
    unfolding i3 by (simp add: setdefault_keys)
  have d: "graph_get rv' x = graph_get rv x" for x
    using i4 [THEN spec, of x] by (simp add: setdefault_get)
  show ?case
    by (intro exI conjI allI; (rule a b c d))
qed

lemma empty_lists_keys: "fst ` set (empty_lists names d) = fst ` set d \<union> set names"
  by (induction names arbitrary: d) (simp_all add: keys_update)

lemma empty_lists_get:
  "graph_get (empty_lists names d) x = (if x \<in> set names then [] else graph_get d x)"
proof (induction names arbitrary: d)
  case Nil
  show ?case by simp
next
  case (Cons nm names)
  show ?case by (simp add: Cons.IH graph_get_update)
qed

lemma graph_get_Nil: "graph_get [] x = []"
  by (simp add: graph_get_def)

lemma build_dependency_graphs_ok:
  "\<exists>fw rv. build_dependency_graphs arch = Inr (fw, rv)
     \<and> fst ` set fw = fst ` set (components arch)
     \<and> fst ` set rv = fst ` set (components arch)
          \<union> (\<Union>(nm, c) \<in> set (components arch). set (depends_on c))
     \<and> (\<forall>x. set (graph_get rv x) = {nm. (nm, x) \<in> depends_directly arch})"
proof -
  let ?comps = "components arch"
  let ?rv0 = "empty_lists (map fst ?comps) []"
  from add_components_ok [of ?comps "[]" ?rv0]
  obtain fw1 rv1 where
    s1: "add_components ?comps ([], ?rv0) = Inr (fw1, rv1)"
    and s2: "fst ` set fw1 = fst ` set ([]::graph) \<union> fst ` set ?comps"
    and s3: "fst ` set rv1 = fst ` set ?rv0 \<union> (\<Union>(nm, c) \<in> set ?comps. set (depends_on c))"
    and s4: "\<forall>x. set (graph_get rv1 x) = set (graph_get ?rv0 x)
            \<union> {nm. \<exists>c. (nm, c) \<in> set ?comps \<and> x \<in> set (depends_on c)}"
    by (elim exE conjE) (rule that)
  from ensure_nodes_ok [of "map fst ?comps" fw1 rv1] obtain fw rv where
    t1: "ensure_nodes (map fst ?comps) (fw1, rv1) = (fw, rv)"
    and t2: "fst ` set fw = fst ` set fw1 \<union> set (map fst ?comps)"
    and t3: "fst ` set rv = fst ` set rv1 \<union> set (map fst ?comps)"
    and t4: "\<forall>x. graph_get rv x = graph_get rv1 x"
    by (elim exE conjE) (rule that)
  have a: "build_dependency_graphs arch = Inr (fw, rv)"
    using s1 t1 by (simp add: build_dependency_graphs_def)
  have b: "fst ` set fw = fst ` set ?comps" unfolding t2 s2 by simp
  have c: "fst ` set rv = fst ` set ?comps \<union> (\<Union>(nm, c) \<in> set ?comps. set (depends_on c))"
    unfolding t3 s3 empty_lists_keys by auto
  have d: "set (graph_get rv x) = {nm. (nm, x) \<in> depends_directly arch}" for x
  proof -
    have "graph_get ?rv0 x = []" by (simp add: empty_lists_get graph_get_Nil)
    then show ?thesis
      using s4 [THEN spec, of x] t4 [THEN spec, of x] by (simp add: depends_directly_def)
  qed
  show ?thesis
    by (intro exI conjI allI; (rule a b c d))
qed

section \<open>The worklist traversal\<close>

lemma push_dependents_eq:
  "push_dependents impacted deps stack = stack @ filter (\<lambda>d. d \<notin> set impacted) deps"
  by (induction deps arbitrary: stack) simp_all

lemma traverse_Nil: "traverse g [] impacted = Some impacted"
  by (subst traverse.simps) simp

lemma traverse_seen:
  "stack \<noteq> [] \<Longrightarrow> last stack \<in> set impacted \<Longrightarrow>
   traverse g stack impacted = traverse g (butlast stack) impacted"
  by (subst traverse.simps) simp

lemma traverse_new:
  "stack \<noteq> [] \<Longrightarrow> last stack \<notin> set impacted \<Longrightarrow>
   traverse g stack impacted =
     traverse g (butlast stack @ filter (\<lambda>d. d \<notin> set (impacted @ [last stack]))
                                  (graph_get g (last stack)))
       (impacted @ [last stack])"
  by (subst traverse.simps) (simp add: Let_def push_dependents_eq)

lemma graph_get_values: "set (graph_get g x) \<subseteq> \<Union> (set ` snd ` set g)"
proof (cases "map_of g x")
  case None
  then show ?thesis by (simp add: graph_get_def)
next
  case (Some vs)
  then have "(x, vs) \<in> set g" by (rule map_of_SomeD)
  then have "set vs \<subseteq> \<Union> (set ` snd ` set g)" by force
  then show ?thesis by (simp add: graph_get_def Some)
qed

lemma set_butlast_last: "stack \<noteq> [] \<Longrightarrow> set stack = insert (last stack) (set (butlast stack))"
proof -
  assume "stack \<noteq> []"
  then have "stack = butlast stack @ [last stack]" by simp
  then have "set stack = set (butlast stack @ [last stack])" by simp
  then show ?thesis by simp
qed

lemma traverse_induct [case_names step]:
  assumes step: "\<And>stack impacted.
     (stack \<noteq> [] \<Longrightarrow> last stack \<in> set impacted \<Longrightarrow> P (butlast stack) impacted) \<Longrightarrow>
     (stack \<noteq> [] \<Longrightarrow> last stack \<notin> set impacted \<Longrightarrow>
        P (butlast stack @ filter (\<lambda>d. d \<notin> set (impacted @ [last stack]))
                               (graph_get g (last stack)))
          (impacted @ [last stack])) \<Longrightarrow>
     P stack impacted"
  shows "P stack impacted"
proof -
  define V where "V = \<Union> (set ` snd ` set g)"
  have finV: "finite V" unfolding V_def by blast
  define m where "m = (\<lambda>p :: string list \<times> string list.
     (card ((set (fst p) \<union> V) - set (snd p)), length (fst p)))"
  have wf: "wf (inv_image (less_than <*lex*> less_than) m)"
    by (intro wf_inv_image wf_lex_prod wf_less_than)
  have "P (fst p) (snd p)" for p
  proof (induction p rule: wf_induct_rule [OF wf])
    case (1 p)
    obtain stack impacted where p: "p = (stack, impacted)" by (cases p)
    have IH: "P s i" if "m (s, i) = (a, b)" "m (stack, impacted) = (c, d)" "a < c \<or> (a = c \<and> b < d)" for s i a b c d
      using 1 [of "(s, i)"] that by (auto simp: p)
    have "P stack impacted"
    proof (rule step)
      assume ne: "stack \<noteq> []" and seen: "last stack \<in> set impacted"
      have "(set (butlast stack) \<union> V) - set impacted = (set stack \<union> V) - set impacted"
        using seen set_butlast_last [OF ne] by auto
      moreover have "length (butlast stack) < length stack" using ne by simp
      ultimately show "P (butlast stack) impacted"
        by (intro IH [of "butlast stack" impacted _ _ _ _]) (auto simp: m_def)
    next
      assume ne: "stack \<noteq> []" and new: "last stack \<notin> set impacted"
      let ?c = "last stack"
      let ?s = "butlast stack @ filter (\<lambda>d. d \<notin> set (impacted @ [?c])) (graph_get g ?c)"
      have "set ?s \<subseteq> set (butlast stack) \<union> V"
        using graph_get_values [of g ?c] by (auto simp: V_def)
      then have sub: "(set ?s \<union> V) - set (impacted @ [?c]) \<subseteq> ((set stack \<union> V) - set impacted) - {?c}"
        using set_butlast_last [OF ne] by auto
      have mem: "?c \<in> (set stack \<union> V) - set impacted"
        using new ne by simp
      have "finite ((set stack \<union> V) - set impacted)" using finV by simp
      then have "card ((set ?s \<union> V) - set (impacted @ [?c])) < card ((set stack \<union> V) - set impacted)"
        using sub mem by (intro psubset_card_mono) auto
      then show "P ?s (impacted @ [?c])"
        by (intro IH [of ?s "impacted @ [?c]" _ _ _ _]) (auto simp: m_def)
    qed
    then show ?case by (simp add: p)
  qed
  from this [of "(stack, impacted)"] show ?thesis by simp
qed

lemma traverse_terminates: "\<exists>r. traverse g stack impacted = Some r"
proof (induction stack impacted rule: traverse_induct [where g = g])
  case (step stack impacted)
  show ?case
  proof (cases "stack = []")
    case True
    then show ?thesis by (simp add: traverse_Nil)
  next
    case ne: False
    show ?thesis
    proof (cases "last stack \<in> set impacted")
      case True
      with step(1) [OF ne] ne show ?thesis by (simp add: traverse_seen)
    next
      case False
      with step(2) [OF ne] ne show ?thesis by (simp add: traverse_new)
    qed
  qed
qed

lemma traverse_contains:
  "traverse g stack impacted = Some r \<Longrightarrow> set impacted \<union> set stack \<subseteq> set r"
proof (induction stack impacted rule: traverse_induct [where g = g])
  case (step stack impacted)
  show ?case
  proof (cases "stack = []")
    case True
    with step.prems show ?thesis by (simp add: traverse_Nil)
  next
    case ne: False
    show ?thesis
    proof (cases "last stack \<in> set impacted")
      case True
      from step.prems have "traverse g (butlast stack) impacted = Some r"
        by (simp add: traverse_seen [OF ne True])
      from step(1) [OF ne True this] True set_butlast_last [OF ne]
      show ?thesis by auto
    next
      case False
      from step.prems have "traverse g (butlast stack @ filter (\<lambda>d. d \<notin> set (impacted @ [last stack]))
                               (graph_get g (last stack))) (impacted @ [last stack]) = Some r"
        by (simp add: traverse_new [OF ne False])
      from step(2) [OF ne False this] set_butlast_last [OF ne]
      show ?thesis by auto
    qed
  qed
qed

lemma rtrancl_Image_closed:
  assumes "N \<subseteq> E\<^sup>* `` S"
  shows "E\<^sup>* `` N \<subseteq> E\<^sup>* `` S"
proof
  fix y assume "y \<in> E\<^sup>* `` N"
  then obtain x where x: "x \<in> N" "(x, y) \<in> E\<^sup>*" by blast
  with assms obtain s where s: "s \<in> S" "(s, x) \<in> E\<^sup>*" by blast
  from s(2) x(2) have "(s, y) \<in> E\<^sup>*" by (rule rtrancl_trans)
  with s(1) show "y \<in> E\<^sup>* `` S" by blast
qed

lemma traverse_sound:
  "traverse g stack impacted = Some r \<Longrightarrow>
   set r \<subseteq> set impacted \<union> (reverse_edges g)\<^sup>* `` set stack"
proof (induction stack impacted rule: traverse_induct [where g = g])
  case (step stack impacted)
  show ?case
  proof (cases "stack = []")
    case True
    with step.prems show ?thesis by (simp add: traverse_Nil)
  next
    case ne: False
    show ?thesis
    proof (cases "last stack \<in> set impacted")
      case True
      from step.prems have "traverse g (butlast stack) impacted = Some r"
        by (simp add: traverse_seen [OF ne True])
      from step(1) [OF ne True this]
      have "set r \<subseteq> set impacted \<union> (reverse_edges g)\<^sup>* `` set (butlast stack)" .
      moreover have "set (butlast stack) \<subseteq> set stack" using set_butlast_last [OF ne] by auto
      ultimately show ?thesis by blast
    next
      case False
      let ?c = "last stack"
      let ?new = "filter (\<lambda>d. d \<notin> set (impacted @ [?c])) (graph_get g ?c)"
      from step.prems have "traverse g (butlast stack @ ?new) (impacted @ [?c]) = Some r"
        by (simp add: traverse_new [OF ne False])
      from step(2) [OF ne False this]
      have r: "set r \<subseteq> set (impacted @ [?c]) \<union> (reverse_edges g)\<^sup>* `` set (butlast stack @ ?new)" .
      have c: "?c \<in> set stack" using ne by simp
      have e1: "set (impacted @ [?c]) \<subseteq> insert ?c (set impacted)" by simp
      have e2: "(reverse_edges g)\<^sup>* `` set (butlast stack @ ?new) =
          (reverse_edges g)\<^sup>* `` set (butlast stack) \<union> (reverse_edges g)\<^sup>* `` set ?new"
        by (simp only: set_append Image_Un)
      have "set ?new \<subseteq> (reverse_edges g) `` {?c}" by (auto simp: reverse_edges_def)
      then have "set ?new \<subseteq> (reverse_edges g)\<^sup>* `` set stack" using c by blast
      then have s1: "(reverse_edges g)\<^sup>* `` set ?new \<subseteq> (reverse_edges g)\<^sup>* `` set stack"
        by (rule rtrancl_Image_closed)
      have "set (butlast stack) \<subseteq> set stack" using set_butlast_last [OF ne] by auto
      then have s2: "(reverse_edges g)\<^sup>* `` set (butlast stack) \<subseteq> (reverse_edges g)\<^sup>* `` set stack"
        by (rule Image_mono [OF subset_refl])
      have s3: "?c \<in> (reverse_edges g)\<^sup>* `` set stack" using c by blast
      from r have "set r \<subseteq> set (impacted @ [?c]) \<union> ((reverse_edges g)\<^sup>* `` set (butlast stack)
          \<union> (reverse_edges g)\<^sup>* `` set ?new)"
        unfolding e2 .
      with e1 s1 s2 s3 show ?thesis by blast
    qed
  qed
qed

lemma traverse_closed:
  "traverse g stack impacted = Some r \<Longrightarrow>
   (\<forall>x \<in> set impacted. (reverse_edges g) `` {x} \<subseteq> set impacted \<union> set stack) \<Longrightarrow>
   (\<forall>x \<in> set r. (reverse_edges g) `` {x} \<subseteq> set r)"
proof (induction stack impacted rule: traverse_induct [where g = g])
  case (step stack impacted)
  note inv = step.prems(2)
  show ?case
  proof (cases "stack = []")
    case True
    with step.prems show ?thesis by (simp add: traverse_Nil)
  next
    case ne: False
    show ?thesis
    proof (cases "last stack \<in> set impacted")
      case True
      from step.prems(1) have t: "traverse g (butlast stack) impacted = Some r"
        by (simp add: traverse_seen [OF ne True])
      have "\<forall>x \<in> set impacted. (reverse_edges g) `` {x} \<subseteq> set impacted \<union> set (butlast stack)"
        using inv True set_butlast_last [OF ne] by auto
      from step(1) [OF ne True t this] show ?thesis .
    next
      case False
      let ?c = "last stack"
      let ?new = "filter (\<lambda>d. d \<notin> set (impacted @ [?c])) (graph_get g ?c)"
      from step.prems(1) have t: "traverse g (butlast stack @ ?new) (impacted @ [?c]) = Some r"
        by (simp add: traverse_new [OF ne False])
      have "(reverse_edges g) `` {x} \<subseteq> set (impacted @ [?c]) \<union> set (butlast stack @ ?new)"
        if "x \<in> set (impacted @ [?c])" for x
      proof (cases "x = ?c")
        case True
        then show ?thesis by (auto simp: reverse_edges_def)
      next
        case False
        with that have "x \<in> set impacted" by simp
        with inv have "(reverse_edges g) `` {x} \<subseteq> set impacted \<union> set stack" by blast
        then show ?thesis using set_butlast_last [OF ne] by auto
      qed
      then have "\<forall>x \<in> set (impacted @ [?c]).
          (reverse_edges g) `` {x} \<subseteq> set (impacted @ [?c]) \<union> set (butlast stack @ ?new)"
        by blast
      from step(2) [OF ne False t this] show ?thesis .
    qed
  qed
qed

lemma traverse_distinct:
  "traverse g stack impacted = Some r \<Longrightarrow> distinct impacted \<Longrightarrow> distinct r"
proof (induction stack impacted rule: traverse_induct [where g = g])
  case (step stack impacted)
  show ?case
  proof (cases "stack = []")
    case True
    with step.prems show ?thesis by (simp add: traverse_Nil)
  next
    case ne: False
    show ?thesis
    proof (cases "last stack \<in> set impacted")
      case True
      from step.prems(1) have "traverse g (butlast stack) impacted = Some r"
        by (simp add: traverse_seen [OF ne True])
      from step(1) [OF ne True this step.prems(2)] show ?thesis .
    next
      case False
      from step.prems(1) have t: "traverse g (butlast stack @ filter (\<lambda>d. d \<notin> set (impacted @ [last stack]))
                               (graph_get g (last stack))) (impacted @ [last stack]) = Some r"
        by (simp add: traverse_new [OF ne False])
      have "distinct (impacted @ [last stack])" using False step.prems(2) by simp
      from step(2) [OF ne False t this] show ?thesis .
    qed
  qed
qed

lemma closed_rtrancl_Image:
  assumes "\<forall>x \<in> T. E `` {x} \<subseteq> T" and "a \<in> T"
  shows "E\<^sup>* `` {a} \<subseteq> T"
proof
  fix y assume "y \<in> E\<^sup>* `` {a}"
  then have "(a, y) \<in> E\<^sup>*" by simp
  then show "y \<in> T"
    using assms by (induction rule: rtrancl_induct) auto
qed

lemma traverse_reach:
  assumes "traverse g [a] [] = Some r"
  shows "set r = (reverse_edges g)\<^sup>* `` {a}"
proof
  from traverse_sound [OF assms] show "set r \<subseteq> (reverse_edges g)\<^sup>* `` {a}" by simp
next
  from traverse_contains [OF assms] have a: "a \<in> set r" by simp
  from traverse_closed [OF assms] have "\<forall>x \<in> set r. (reverse_edges g) `` {x} \<subseteq> set r" by simp
  from closed_rtrancl_Image [OF this a] show "(reverse_edges g)\<^sup>* `` {a} \<subseteq> set r" .
qed

section \<open>Simulation of one failure\<close>

lemma reverse_edges_build:
  assumes "build_dependency_graphs arch = Inr (fw, rv)"
  shows "reverse_edges rv = (depends_directly arch)\<inverse>"
proof -
  from build_dependency_graphs_ok [of arch] obtain fw' rv' where
    b: "build_dependency_graphs arch = Inr (fw', rv')"
    and g: "\<forall>x. set (graph_get rv' x) = {nm. (nm, x) \<in> depends_directly arch}"
    by (elim exE conjE) (rule that)
  from b assms have "rv' = rv" by simp
  with g have "y \<in> set (graph_get rv x) \<longleftrightarrow> (y, x) \<in> depends_directly arch" for x y
    by simp
  then show ?thesis by (auto simp: reverse_edges_def)
qed

lemma depends_directly_source:
  "(a, b) \<in> depends_directly arch \<Longrightarrow> a \<in> fst ` set (components arch)"
  by (force simp: depends_directly_def)

lemma impacted_are_components:
  assumes "failed \<in> fst ` set (components arch)"
    and "(failed, y) \<in> ((depends_directly arch)\<inverse>)\<^sup>*"
  shows "y \<in> fst ` set (components arch)"
  using assms(2)
proof (induction rule: rtrancl_induct)
  case base
  show ?case by (rule assms(1))
next
  case (step y z)
  from step(2) have "(z, y) \<in> depends_directly arch" by simp
  then show ?case by (rule depends_directly_source)
qed

lemma severity_loop_ok:
  "set impacted \<subseteq> fst ` set comps \<Longrightarrow> \<exists>s. severity_loop comps impacted score = Inr s"
proof (induction impacted arbitrary: score)
  case Nil
  show ?case by simp
next
  case (Cons nm rest)
  then have "nm \<in> fst ` set comps" by simp
  then obtain cmp where c: "map_of comps nm = Some cmp"
    by (cases "map_of comps nm") (simp_all add: map_of_eq_None_iff)
  from Cons.prems have "set rest \<subseteq> fst ` set comps" by simp
  from Cons.IH [OF this] show ?case by (simp add: c Let_def)
qed

lemma compute_severity_ok:
  assumes "set impacted \<subseteq> fst ` set (components arch)"
  shows "\<exists>s. compute_severity arch impacted uv = Inr s"
proof -
  define s1 :: rat where
    "s1 = (if uv then 0 + min (of_nat (length impacted) * 1) 5 + 3
           else 0 + min (of_nat (length impacted) * 1) 5)"
  from severity_loop_ok [OF assms, of s1] obtain s2 where
    s2: "severity_loop (components arch) impacted s1 = Inr s2" ..
  have "compute_severity arch impacted uv =
          Inr (round2 (let score3 = (if s2 > 10 then 10 else s2);
                           score4 = (if score3 < 0 then 0 else score3)
                       in score4))"
    unfolding compute_severity_def Let_def s1_def [symmetric] s2 by simp
  then show ?thesis by blast
qed

lemma simulate_failure_unknown:
  "failed \<notin> fst ` set (components arch) \<Longrightarrow>
   simulate_failure arch failed = Some (Inl (ValueError (not_found_message failed)))"
  by (simp add: simulate_failure_def)

lemma simulate_failure_known:
  assumes "failed \<in> fst ` set (components arch)"
  shows "\<exists>fw rv impacted score.
           build_dependency_graphs arch = Inr (fw, rv)
         \<and> traverse rv [failed] [] = Some impacted
         \<and> set impacted = ((depends_directly arch)\<inverse>)\<^sup>* `` {failed}
         \<and> distinct impacted
         \<and> compute_severity arch impacted
              (\<exists>nm \<in> set (get_public_entrypoints arch). nm \<in> set impacted) = Inr score
         \<and> simulate_failure arch failed =
             Some (Inr \<lparr>FailureResult.failed_component = failed,
                        FailureResult.impacted_components = sort impacted,
                        FailureResult.user_visible_impact =
                          (\<exists>nm \<in> set (get_public_entrypoints arch). nm \<in> set impacted),
                        FailureResult.severity_score = score,
                        FailureResult.result_notes =
                          (if \<exists>nm \<in> set (get_public_entrypoints arch). nm \<in> set impacted
                           then ''User-facing components are affected.''
                           else ''No direct impact on public entrypoints.'')\<rparr>)"
proof -
  from build_dependency_graphs_ok [of arch] obtain fw rv where
    b: "build_dependency_graphs arch = Inr (fw, rv)" by (elim exE conjE) (rule that)
  from traverse_terminates [of rv "[failed]" "[]"] obtain impacted where
    t: "traverse rv [failed] [] = Some impacted" ..
  have s: "set impacted = ((depends_directly arch)\<inverse>)\<^sup>* `` {failed}"
    using traverse_reach [OF t] reverse_edges_build [OF b] by simp
  have d: "distinct impacted" using traverse_distinct [OF t] by simp
  have "set impacted \<subseteq> fst ` set (components arch)"
    unfolding s using impacted_are_components [OF assms] by blast
  from compute_severity_ok [OF this] obtain score where
    c: "compute_severity arch impacted
          (\<exists>nm \<in> set (get_public_entrypoints arch). nm \<in> set impacted) = Inr score" ..
  have r: "simulate_failure arch failed =
             Some (Inr \<lparr>FailureResult.failed_component = failed,
                        FailureResult.impacted_components = sort impacted,
                        FailureResult.user_visible_impact =
                          (\<exists>nm \<in> set (get_public_entrypoints arch). nm \<in> set impacted),
                        FailureResult.severity_score = score,
                        FailureResult.result_notes =
                          (if \<exists>nm \<in> set (get_public_entrypoints arch). nm \<in> set impacted
                           then ''User-facing components are affected.''
                           else ''No direct impact on public entrypoints.'')\<rparr>)"
    using assms b t c by (simp add: simulate_failure_def Let_def)
  show ?thesis
    by (intro exI conjI; (rule b t s d c r))
qed

text \<open>
  \<open>list(impacted)\<close> lists a Python set, in an order the language does not fix. The
  severity does not depend on it: the loop adds one weight for each name.
\<close>

lemma severity_loop_sum:
  "set impacted \<subseteq> fst ` set comps \<Longrightarrow>
   severity_loop comps impacted score =
     Inr (score + sum_list (map (severity_weight comps) impacted))"
proof (induction impacted arbitrary: score)
  case Nil
  show ?case by simp
next
  case (Cons nm rest)
  then have "nm \<in> fst ` set comps" by simp
  then obtain cmp where c: "map_of comps nm = Some cmp"
    by (cases "map_of comps nm") (simp_all add: map_of_eq_None_iff)
  from Cons.prems have r: "set rest \<subseteq> fst ` set comps" by simp
  show ?case
    by (simp add: c Let_def Cons.IH [OF r] severity_weight_def)
qed

lemma compute_severity_order:
  assumes "set xs \<subseteq> fst ` set (components arch)"
    and "distinct xs" and "distinct ys" and "set xs = set ys"
  shows "compute_severity arch xs uv = compute_severity arch ys uv"
proof -
  from assms(1,4) have ys: "set ys \<subseteq> fst ` set (components arch)" by simp
  have "sum_list (map (severity_weight (components arch)) xs) =
        sum (severity_weight (components arch)) (set xs)"
    using assms(2) by (rule sum_list_distinct_conv_sum_set)
  also have "\<dots> = sum (severity_weight (components arch)) (set ys)"
    by (simp only: assms(4))
  also have "\<dots> = sum_list (map (severity_weight (components arch)) ys)"
    using assms(3) by (rule sum_list_distinct_conv_sum_set [symmetric])
  finally have s: "sum_list (map (severity_weight (components arch)) xs) =
      sum_list (map (severity_weight (components arch)) ys)" .
  have "length xs = card (set xs)" using assms(2) by (simp add: distinct_card)
  also have "\<dots> = card (set ys)" by (simp only: assms(4))
  also have "\<dots> = length ys" using assms(3) by (simp add: distinct_card)
  finally have l: "length xs = length ys" .
  show ?thesis
    by (simp add: compute_severity_def Let_def severity_loop_sum [OF assms(1)]
        severity_loop_sum [OF ys] s l)
qed

section \<open>The scenario selector and the worked architecture\<close>

lemma collect_critical_eq:
  "collect_critical comps selected =
     selected @ map fst (filter (\<lambda>(nm, cmp). ctype cmp \<in> critical_types) comps)"
  by (induction comps selected rule: collect_critical.induct) simp_all

lemma generate_failure_scenarios_existing:
  "set (generate_failure_scenarios arch) \<subseteq> fst ` set (components arch)"
  by (auto simp: generate_failure_scenarios_def collect_critical_eq Let_def)

lemma no_direct_no_transitive:
  assumes "\<And>z. (z, x) \<notin> R"
  shows "(y, x) \<notin> R\<^sup>+"
proof
  assume "(y, x) \<in> R\<^sup>+"
  then obtain z where "(z, x) \<in> R" by (auto dest: tranclD2)
  with assms show False by blast
qed

lemma nothing_depends_on_G: "(z, ''G'') \<notin> depends_directly worked_architecture"
  by (auto simp: depends_directly_def worked_architecture_def)

section \<open>The security analysis\<close>

lemma seen_key_of_risk_key: "risk_key r = risk_key r' \<Longrightarrow> seen_key r = seen_key r'"
  by (simp add: risk_key_def seen_key_def)

lemma emit_inv:
  assumes "analysis_inv st" and "seen_key risk = key"
  shows "analysis_inv (emit key risk st)"
proof -
  obtain seen risks where st: "st = (seen, risks)" by (cases st)
  from assms(1) have a: "\<forall>r \<in> set risks. seen_key r \<in> seen"
    and d: "distinct (map risk_key risks)"
    by (simp_all add: analysis_inv_def st)
  show ?thesis
  proof (cases "key \<in> seen")
    case True
    then show ?thesis using assms(1) by (simp add: emit_def st)
  next
    case False
    have "risk_key risk \<notin> risk_key ` set risks"
    proof
      assume "risk_key risk \<in> risk_key ` set risks"
      then obtain r where r: "r \<in> set risks" "risk_key risk = risk_key r" by blast
      from r(2) have "seen_key r = key"
        using seen_key_of_risk_key [of risk r] assms(2) by simp
      with a r(1) False show False by blast
    qed
    with a d False show ?thesis
      by (simp add: emit_def st analysis_inv_def assms(2))
  qed
qed

lemma rule_dos_inv: "analysis_inv st \<Longrightarrow> analysis_inv (rule_dos cmp st)"
  by (simp add: rule_dos_def emit_inv seen_key_def dos_risk_def)

lemma rule_public_database_inv:
  "analysis_inv st \<Longrightarrow> analysis_inv (rule_public_database cmp st)"
  by (simp add: rule_public_database_def emit_inv seen_key_def data_exposure_risk_def)

lemma rule_external_api_inv: "analysis_inv st \<Longrightarrow> analysis_inv (rule_external_api cmp st)"
  by (simp add: rule_external_api_def emit_inv seen_key_def external_dependency_risk_def)

lemma analyze_loop_inv: "analysis_inv st \<Longrightarrow> analysis_inv (analyze_loop comps st)"
  by (induction comps arbitrary: st)
    (simp_all add: rule_dos_inv rule_public_database_inv rule_external_api_inv)

lemma analyze_security_distinct: "distinct (map risk_key (analyze_security arch))"
proof -
  have "analysis_inv ({}, [])" by (simp add: analysis_inv_def)
  then have "analysis_inv (analyze_loop (map snd (components arch)) ({}, []))"
    by (rule analyze_loop_inv)
  then show ?thesis
    by (simp add: analysis_inv_def analyze_security_def split: prod.splits)
qed

lemma emit_subseq:
  "\<exists>extra. snd (emit key risk st) = snd st @ extra \<and> subseq extra [risk]"
  by (cases st) (simp add: emit_def)

lemma cond_emit_subseq:
  "\<exists>e. snd (if c then emit key risk st else st) = snd st @ e
      \<and> subseq e (if c then [risk] else [])"
  by (cases c) (simp_all add: emit_subseq)

lemma step_subseq:
  "\<exists>extra. snd (rule_external_api cmp (rule_public_database cmp (rule_dos cmp st)))
              = snd st @ extra \<and> subseq extra (table_risks cmp)"
proof -
  define s1 where "s1 = rule_dos cmp st"
  define s2 where "s2 = rule_public_database cmp s1"
  define t1 where "t1 = (if public cmp \<and> ctype cmp \<in> {''gateway'', ''service'', ''web_client''}
      then [dos_risk cmp] else [])"
  define t2 where "t2 = (if public cmp \<and> ctype cmp = ''database'' then [data_exposure_risk cmp] else [])"
  define t3 where "t3 = (if ctype cmp = ''external_api'' then [external_dependency_risk cmp] else [])"
  have "\<exists>e. snd s1 = snd st @ e \<and> subseq e t1"
    unfolding s1_def t1_def rule_dos_def by (rule cond_emit_subseq)
  then obtain e1 where e1: "snd s1 = snd st @ e1" "subseq e1 t1" by blast
  have "\<exists>e. snd s2 = snd s1 @ e \<and> subseq e t2"
    unfolding s2_def t2_def rule_public_database_def by (rule cond_emit_subseq)
  then obtain e2 where e2: "snd s2 = snd s1 @ e2" "subseq e2 t2" by blast
  have "\<exists>e. snd (rule_external_api cmp s2) = snd s2 @ e \<and> subseq e t3"
    unfolding t3_def rule_external_api_def by (rule cond_emit_subseq)
  then obtain e3 where e3: "snd (rule_external_api cmp s2) = snd s2 @ e3" "subseq e3 t3" by blast
  have "snd (rule_external_api cmp s2) = snd st @ (e1 @ e2 @ e3)"
    using e1(1) e2(1) e3(1) by simp
  moreover have "subseq (e1 @ e2 @ e3) (t1 @ t2 @ t3)"
    using e1(2) e2(2) e3(2) by (intro list_emb_append_mono)
  moreover have "table_risks cmp = t1 @ t2 @ t3"
    by (simp add: table_risks_def t1_def t2_def t3_def)
  ultimately show ?thesis unfolding s2_def s1_def by metis
qed

lemma analyze_loop_subseq:
  "\<exists>extra. snd (analyze_loop comps st) = snd st @ extra
     \<and> subseq extra (concat (map table_risks comps))"
proof (induction comps arbitrary: st)
  case Nil
  show ?case by simp
next
  case (Cons cmp rest)
  let ?st = "rule_external_api cmp (rule_public_database cmp (rule_dos cmp st))"
  from step_subseq [of cmp st] obtain e1 where
    e1: "snd ?st = snd st @ e1" "subseq e1 (table_risks cmp)" by blast
  from Cons.IH [of ?st] obtain e2 where
    e2: "snd (analyze_loop rest ?st) = snd ?st @ e2" "subseq e2 (concat (map table_risks rest))"
    by blast
  have "snd (analyze_loop (cmp # rest) st) = snd st @ (e1 @ e2)"
    using e1(1) e2(1) by simp
  moreover have "subseq (e1 @ e2) (concat (map table_risks (cmp # rest)))"
    using e1(2) e2(2) by (simp add: list_emb_append_mono)
  ultimately show ?case by blast
qed

lemma analyze_security_subseq:
  "subseq (analyze_security arch) (concat (map table_risks (map snd (components arch))))"
  using analyze_loop_subseq [of "map snd (components arch)" "({}, [])"]
  by (auto simp: analyze_security_def)

lemma step_fresh:
  assumes "name cmp \<notin> fst ` seen"
  shows "\<exists>seen'. rule_external_api cmp (rule_public_database cmp (rule_dos cmp (seen, risks)))
            = (seen', risks @ table_risks cmp)
          \<and> fst ` seen' \<subseteq> insert (name cmp) (fst ` seen)"
proof -
  have n: "(name cmp, t) \<notin> seen" for t
    using assms by (metis fst_conv image_eqI)
  show ?thesis
    by (auto simp: rule_external_api_def rule_public_database_def rule_dos_def emit_def
        table_risks_def n)
qed

lemma analyze_loop_fresh:
  assumes "distinct (map name comps)" and "fst ` seen \<inter> set (map name comps) = {}"
  shows "snd (analyze_loop comps (seen, risks)) = risks @ concat (map table_risks comps)"
  using assms
proof (induction comps arbitrary: seen risks)
  case Nil
  show ?case by simp
next
  case (Cons cmp rest)
  from Cons.prems(2) have "name cmp \<notin> fst ` seen" by auto
  from step_fresh [OF this, of risks] obtain seen' where
    s: "rule_external_api cmp (rule_public_database cmp (rule_dos cmp (seen, risks)))
            = (seen', risks @ table_risks cmp)"
    and k: "fst ` seen' \<subseteq> insert (name cmp) (fst ` seen)" by blast
  from Cons.prems(1) have d: "distinct (map name rest)" and nn: "name cmp \<notin> set (map name rest)"
    by simp_all
  have dj: "x \<notin> set (map name rest)" if "x \<in> fst ` seen" for x
    using Cons.prems(2) that by auto
  have "x \<notin> set (map name rest)" if a: "x \<in> fst ` seen'" for x
  proof (cases "x = name cmp")
    case True
    with nn show ?thesis by simp
  next
    case False
    with a k have "x \<in> fst ` seen" by (metis insertE subsetD)
    then show ?thesis by (rule dj)
  qed
  then have "fst ` seen' \<inter> set (map name rest) = {}"
    by (meson disjoint_iff)
  from Cons.IH [OF d this, of "risks @ table_risks cmp"] show ?case
    by (simp add: s)
qed

lemma analyze_security_table:
  assumes "distinct (map (name \<circ> snd) (components arch))"
  shows "analyze_security arch = concat (map table_risks (map snd (components arch)))"
proof -
  from assms have "distinct (map name (map snd (components arch)))" by simp
  from analyze_loop_fresh [OF this, of "{}" "[]"] show ?thesis
    by (simp add: analyze_security_def)
qed
section \<open>The report aggregation\<close>

lemma round_half_even_of_int: "round_half_even (of_int k) = k"
  by (simp add: round_half_even_def)

lemma round2_hundredth: "round2 (of_int k / 100) = of_int k / 100"
  by (simp add: round2_def round_half_even_of_int)

subsection \<open>Rounding to a float keeps the sign and the bound 10\<close>

lemma round_half_even_nonneg: "0 \<le> y \<Longrightarrow> 0 \<le> round_half_even y"
  by (simp add: round_half_even_def Let_def)

lemma round_half_even_le_int:
  assumes "y \<le> of_int n"
  shows "round_half_even y \<le> n"
proof -
  have f: "\<lfloor>y\<rfloor> \<le> n" using assms by (simp add: floor_le_iff)
  show ?thesis
  proof (cases "\<lfloor>y\<rfloor> = n")
    case True
    then have "of_int n \<le> y" by (metis of_int_floor_le)
    with assms have "y = of_int n" by simp
    then show ?thesis by (simp add: round_half_even_def Let_def)
  next
    case False
    with f have "\<lfloor>y\<rfloor> + 1 \<le> n" by simp
    then show ?thesis by (simp add: round_half_even_def Let_def)
  qed
qed

lemma powi_diff_nat: "(2::rat) powi (int m - int n) = 2 ^ m / 2 ^ n"
proof -
  have "(2::rat) powi (int m - int n) = 2 powi int m / 2 powi int n"
    by (rule power_int_diff) simp
  then show ?thesis by (simp only: power_int_of_nat)
qed

lemma binade_le:
  assumes "0 < q"
  shows "2 powi (binade q) \<le> q"
proof -
  obtain a b where ab: "quotient_of q = (a, b)" by (cases "quotient_of q")
  then have b: "0 < b" by (rule quotient_of_denom_pos)
  from ab have q: "q = of_int a / of_int b" by (rule quotient_of_div)
  from assms b have a: "0 < a" unfolding q by (simp add: zero_less_divide_iff)
  have abs: "\<bar>q\<bar> = q" using assms by simp
  define d where "d = bitlen a - bitlen b"
  show ?thesis
  proof (cases "(2::rat) powi d \<le> q")
    case True
    then show ?thesis by (simp add: binade_def abs ab Let_def d_def)
  next
    case False
    then have e: "binade q = d - 1" by (simp add: binade_def abs ab Let_def d_def)
    from bitlen_bounds [OF a] have la: "2 ^ nat (bitlen a - 1) \<le> a" by simp
    from bitlen_bounds [OF b] have lb: "b < 2 ^ nat (bitlen b)" by simp
    have pa: "1 \<le> bitlen a" using a by (simp add: bitlen_alt_def)
    have pb: "0 \<le> bitlen b" by (rule bitlen_nonneg)
    have "d - 1 = int (nat (bitlen a - 1)) - int (nat (bitlen b))"
      using pa pb unfolding d_def by linarith
    then have "(2::rat) powi (d - 1) = 2 powi (int (nat (bitlen a - 1)) - int (nat (bitlen b)))"
      by (rule arg_cong)
    also have "\<dots> = 2 ^ nat (bitlen a - 1) / 2 ^ nat (bitlen b)"
      by (rule powi_diff_nat)
    also have "\<dots> \<le> of_int a / 2 ^ nat (bitlen b)"
    proof -
      have "(2::rat) ^ nat (bitlen a - 1) \<le> of_int a"
        using la by (metis of_int_le_iff of_int_numeral of_int_power)
      then show ?thesis by (simp add: divide_right_mono)
    qed
    also have "\<dots> \<le> of_int a / of_int b"
    proof -
      have "(of_int b :: rat) \<le> 2 ^ nat (bitlen b)"
        using lb by (metis less_imp_le of_int_le_iff of_int_numeral of_int_power)
      moreover have "(0::rat) < of_int b" using b by simp
      moreover have "(0::rat) \<le> of_int a" using a by simp
      ultimately show ?thesis by (simp add: frac_le)
    qed
    finally have "2 powi (d - 1) \<le> q" unfolding q .
    then show ?thesis by (simp only: e)
  qed
qed

lemma fl_nonneg: "0 \<le> q \<Longrightarrow> 0 \<le> fl q"
  by (simp add: fl_def Let_def round_half_even_nonneg)

lemma fl_le_10:
  assumes "q \<le> 10"
  shows "fl q \<le> 10"
proof (cases "0 < q")
  case False
  then have "q \<le> 0" by simp
  show ?thesis
  proof (cases "q = 0")
    case True
    then show ?thesis by (simp add: fl_def)
  next
    case False
    let ?s = "(2::rat) powi (52 - binade q)"
    have s: "0 < ?s" by simp
    from \<open>q \<le> 0\<close> s have "q * ?s \<le> of_int 0" by (simp add: mult_le_0_iff)
    then have "round_half_even (q * ?s) \<le> 0" by (rule round_half_even_le_int)
    then have "of_int (round_half_even (q * ?s)) / ?s \<le> 0"
      using s by (simp add: divide_le_0_iff)
    then show ?thesis using False by (simp add: fl_def Let_def)
  qed
next
  case True
  from binade_le [OF True] assms have "(2::rat) powi binade q \<le> 10" by simp
  also have "(10::rat) < 2 powi 4" by simp
  finally have lt: "(2::rat) powi binade q < 2 powi 4" .
  have "binade q < 4"
  proof (rule ccontr)
    assume "\<not> binade q < 4"
    then have "4 \<le> binade q" by simp
    then have "(2::rat) powi 4 \<le> 2 powi binade q" by (rule power_int_increasing) simp
    with lt show False by simp
  qed
  then have k: "0 \<le> 52 - binade q" by simp
  define k where "k = nat (52 - binade q)"
  have s: "(2::rat) powi (52 - binade q) = 2 ^ k"
    using \<open>0 \<le> 52 - binade q\<close> by (simp add: k_def power_int_def)
  have "q * 2 ^ k \<le> 10 * 2 ^ k" using assms by simp
  also have "(10 * 2 ^ k :: rat) = of_int (10 * 2 ^ k)" by simp
  finally have "round_half_even (q * 2 ^ k) \<le> 10 * 2 ^ k" by (rule round_half_even_le_int)
  then have "(of_int (round_half_even (q * 2 ^ k)) :: rat) \<le> of_int (10 * 2 ^ k)"
    by (simp only: of_int_le_iff)
  then have "of_int (round_half_even (q * 2 ^ k)) / 2 ^ k \<le> (10::rat)"
    by (simp add: divide_le_eq)
  then show ?thesis using True by (simp add: fl_def Let_def s)
qed

lemma foldl_fadd_nonneg:
  "0 \<le> acc \<Longrightarrow> (\<forall>x \<in> set xs. 0 \<le> x) \<Longrightarrow> 0 \<le> foldl fadd acc xs"
proof (induction xs arbitrary: acc)
  case Nil
  then show ?case by simp
next
  case (Cons x xs)
  from Cons.prems have "0 \<le> acc + x" by simp
  then have "0 \<le> fadd acc x" unfolding fadd_def by (rule fl_nonneg)
  moreover from Cons.prems have "\<forall>y \<in> set xs. 0 \<le> y" by simp
  ultimately have "0 \<le> foldl fadd (fadd acc x) xs" by (rule Cons.IH)
  then show ?case by simp
qed

lemma sum_float_nonneg: "(\<forall>x \<in> set xs. 0 \<le> x) \<Longrightarrow> 0 \<le> sum_float xs"
  unfolding sum_float_def by (rule foldl_fadd_nonneg) simp

lemma mean_nonneg:
  assumes "\<forall>x \<in> set xs. 0 \<le> x"
  shows "0 \<le> mean xs"
proof -
  have "0 \<le> sum_float xs" using assms by (rule sum_float_nonneg)
  then have "0 \<le> sum_float xs / of_nat (length xs)" by simp
  then show ?thesis unfolding mean_def fdiv_def by (rule fl_nonneg)
qed

lemma clamp_lower_only:
  assumes "0 \<le> m"
  shows "clamp (fsub 10 m) 0 10 = max 0 (fsub 10 m)"
proof -
  from assms have "10 - m \<le> 10" by simp
  then have "fsub 10 m \<le> 10" unfolding fsub_def by (rule fl_le_10)
  then show ?thesis by (simp add: clamp_def min_def)
qed

lemma round_float_no_scenario: "round_float (max 0 (fsub 10 0)) = 10"
  by code_simp

lemma round_float_0: "round_float 0 = 0"
  by code_simp

subsection \<open>The report\<close>

lemma reporting_report_empty:
  "fst (reporting_agent_run self_name arch [] risks context) =
     \<lparr>system_name = Architecture.system_name arch, scenarios = [], security_risks = risks,
      overall_resilience_score = 10, worst_case_severity = 0\<rparr>"
  by (simp add: reporting_agent_run_def Let_def round_float_no_scenario round_float_0)

lemma reporting_report_nonempty:
  assumes "scenario_list \<noteq> []"
  shows "fst (reporting_agent_run self_name arch scenario_list risks context) =
     \<lparr>system_name = Architecture.system_name arch, scenarios = scenario_list,
      security_risks = risks,
      overall_resilience_score =
        round_float (max 0 (fsub 10 (mean (map ScenarioSummary.severity scenario_list)))),
      worst_case_severity =
        round_float (Max (set (map ScenarioSummary.severity scenario_list)))\<rparr>"
proof -
  from assms obtain s rest where l: "scenario_list = s # rest" by (cases scenario_list) auto
  have m: "fold max (map ScenarioSummary.severity rest) (ScenarioSummary.severity s) =
      Max (set (map ScenarioSummary.severity (s # rest)))"
    using Max.set_eq_fold [of "ScenarioSummary.severity s" "map ScenarioSummary.severity rest"]
    by (simp only: list.map)
  show ?thesis
    unfolding l reporting_agent_run_def Let_def mean_def
    by (simp only: list.case prod.case fst_conv m)
qed

lemma Max_valid_severity:
  assumes "xs \<noteq> []" and "\<forall>x \<in> set xs. valid_severity x"
  shows "round_float (Max (set xs)) = Max (set xs)"
proof -
  have "Max (set xs) \<in> set xs" using assms(1) by (intro Max_in) simp_all
  with assms(2) have "valid_severity (Max (set xs))" by (rule bspec)
  then show ?thesis by (simp add: valid_severity_def)
qed

subsection \<open>The severities of the failure simulator\<close>

text \<open>
  \<open>compute_severity\<close> returns a multiple of \<open>0.5\<close> between 0 and 10, each of which is a
  float that \<open>round(_, 2)\<close> leaves as it is: the severities that \<open>SimulationAgent.run\<close>
  copies from the results of \<open>simulate_failure\<close> into the scenarios are severities of the
  data model.
\<close>

lemma half_valid:
  assumes "0 \<le> k" and "k \<le> 20"
  shows "valid_severity (of_int k / 2)"
proof -
  have "list_all valid_severity (map (\<lambda>k. rat_of_int k / 2) [0..20])" by code_simp
  then have "\<forall>k \<in> set [0..20]. valid_severity (rat_of_int k / 2)"
    by (simp add: list_all_iff)
  moreover have "k \<in> set [0..20]" using assms by simp
  ultimately show ?thesis by (rule bspec)
qed

lemma severity_loop_half:
  "severity_loop comps impacted score = Inr s \<Longrightarrow> 2 * score \<in> \<int> \<Longrightarrow>
   score \<le> s \<and> 2 * s \<in> \<int>"
proof (induction impacted arbitrary: score)
  case Nil
  then show ?case by simp
next
  case (Cons nm rest)
  from Cons.prems(1) obtain cmp where c: "map_of comps nm = Some cmp"
    by (cases "map_of comps nm") simp_all
  define score1 where "score1 = (if ctype cmp \<in> critical_types then score + 1 / 2 else score)"
  define score2 where "score2 =
    (if lower (criticality cmp) = ''high'' then score1 + 1
     else if lower (criticality cmp) = ''medium'' then score1 + 1 / 2 else score1)"
  have "severity_loop comps (nm # rest) score = severity_loop comps rest score2"
    by (simp only: severity_loop.simps c option.case Let_def score1_def score2_def)
  with Cons.prems(1) have r: "severity_loop comps rest score2 = Inr s" by simp
  have i1: "2 * score1 \<in> \<int>" and l1: "score \<le> score1"
    using Cons.prems(2) by (simp_all add: score1_def distrib_left)
  have i2: "2 * score2 \<in> \<int>" and l2: "score1 \<le> score2"
    using i1 by (simp_all add: score2_def distrib_left)
  from Cons.IH [OF r i2] l1 l2 show ?case by simp
qed

lemma compute_severity_valid:
  assumes "compute_severity arch impacted uv = Inr s"
  shows "valid_severity s"
proof -
  define s1 :: rat where
    "s1 = (if uv then 0 + min (of_nat (length impacted) * 1) 5 + 3
           else 0 + min (of_nat (length impacted) * 1) 5)"
  have i1: "2 * s1 \<in> \<int>" by (simp add: s1_def min_def distrib_left)
  have p1: "0 \<le> s1" by (simp add: s1_def)
  from assms obtain s2 where
    s2: "severity_loop (components arch) impacted s1 = Inr s2"
    unfolding compute_severity_def Let_def s1_def [symmetric]
    by (cases "severity_loop (components arch) impacted s1") (simp_all add: s1_def)
  define s4 where "s4 = (if s2 > 10 then 10 else s2)"
  from severity_loop_half [OF s2 i1] p1 have p2: "0 \<le> s2" and i2: "2 * s2 \<in> \<int>" by simp_all
  have s: "s = round2 s4"
    using assms p2 unfolding compute_severity_def Let_def s1_def [symmetric] s2 s4_def
    by (auto simp: s1_def)
  have b: "0 \<le> s4" "s4 \<le> 10" using p2 by (simp_all add: s4_def)
  have "2 * s4 \<in> \<int>" using i2 by (simp add: s4_def)
  then obtain k :: int where k: "2 * s4 = of_int k" by (rule Ints_cases)
  then have e: "s4 = of_int k / 2" by simp
  from b have kb: "0 \<le> k" "k \<le> 20" unfolding e by simp_all
  have "round2 s4 = round2 (of_int (50 * k) / 100)" by (simp add: e)
  also have "\<dots> = of_int (50 * k) / 100" by (rule round2_hundredth)
  also have "\<dots> = of_int k / 2" by simp
  finally have "s = of_int k / 2" by (simp only: s)
  with half_valid [OF kb] show ?thesis by (simp only:)
qed

lemma simulate_failure_valid_severity:
  assumes "simulate_failure arch failed = Some (Inr r)"
  shows "valid_severity (FailureResult.severity_score r)"
  using assms compute_severity_valid
  by (auto simp: simulate_failure_def Let_def split: if_splits sum.splits option.splits prod.splits)

subsection \<open>Float and exact arithmetic\<close>

text \<open>
  Twenty scenarios, one of severity 1.5 and nineteen of severity 1.0: the quotient
  \<open>20.5 / 20\<close> is no float, the difference \<open>10.0 - 1.025\<close> lies below \<open>8.975\<close> and the
  report holds the float \<open>8.97\<close>, where the formula on the rationals gives \<open>8.98\<close>.
\<close>

lemma exact_arithmetic_differs:
  "spec_resilience (3 / 2 # replicate 19 1) = fl (897 / 100)
   \<and> exact_resilience (3 / 2 # replicate 19 1) = 898 / 100
   \<and> fsub 10 (mean (3 / 2 # replicate 19 1)) < 8975 / 1000"
  by code_simp


section \<open>The advisory pass of the remediation\<close>

lemma suggestion_of_dict: "suggestion_of (PDict d) = Inr (defaulted_suggestion d)"
  by (simp add: suggestion_of_def dict_get_def defaulted_suggestion_def field_or_def)

lemma is_dict_iff: "is_dict v \<longleftrightarrow> (\<exists>d. v = PDict d)"
  by (cases v) simp_all

lemma append_extra_dicts:
  "\<forall>v \<in> set extra. is_dict v \<Longrightarrow>
   append_extra extra suggestions =
     (None, suggestions @ map defaulted_suggestion (dicts_of extra))"
proof (induction extra arbitrary: suggestions)
  case Nil
  show ?case by simp
next
  case (Cons v rest)
  from Cons.prems obtain d where v: "v = PDict d" by (auto simp: is_dict_iff)
  from Cons.prems have "\<forall>v \<in> set rest. is_dict v" by simp
  from Cons.IH [OF this, of "suggestions @ [defaulted_suggestion d]"]
  show ?case by (simp add: v suggestion_of_dict)
qed

lemma dicts_of_filter: "dicts_of (filter is_dict ds) = dicts_of ds"
  by (induction ds rule: dicts_of.induct) simp_all

lemma generate_Inr:
  assumes "generate_remediation_suggestions reply = Inr extra"
  shows "(\<forall>v \<in> set extra. is_dict v)
         \<and> dicts_of extra = advisory_objects (Client model_name reply)"
proof (cases reply)
  case (GenerateRaises e)
  with assms show ?thesis by (simp add: generate_remediation_suggestions_def)
next
  case (ResponseText parsed)
  show ?thesis
  proof (cases parsed)
    case None
    with assms ResponseText show ?thesis
      by (auto simp: generate_remediation_suggestions_def advisory_objects_def)
  next
    case (Some data)
    with assms ResponseText show ?thesis
      by (cases data)
        (auto simp: generate_remediation_suggestions_def advisory_objects_def dicts_of_filter)
  qed
qed

lemma generate_Inl:
  assumes "generate_remediation_suggestions reply = Inl e"
  shows "reply = GenerateRaises e"
  using assms
  by (auto simp: generate_remediation_suggestions_def
      split: llm_reply.splits option.splits pyval.splits)

lemma advisory_pass_suggestions:
  "fst (advisory_pass self_name client suggestions context) =
     suggestions @ map defaulted_suggestion (advisory_objects client)"
proof (cases client)
  case NoLLMClient
  then show ?thesis by (simp add: advisory_pass_def advisory_objects_def)
next
  case (InitRaises e)
  then show ?thesis by (simp add: advisory_pass_def advisory_objects_def on_llm_failed_def)
next
  case (Client model_name reply)
  show ?thesis
  proof (cases "generate_remediation_suggestions reply")
    case (Inl e)
    from generate_Inl [OF this] have "advisory_objects client = []"
      by (simp add: Client advisory_objects_def)
    with Inl show ?thesis by (simp add: Client advisory_pass_def on_llm_failed_def)
  next
    case (Inr extra)
    from generate_Inr [OF this, of model_name]
    have d: "\<forall>v \<in> set extra. is_dict v"
      and o: "dicts_of extra = advisory_objects client"
      by (simp_all add: Client)
    from append_extra_dicts [OF d, of suggestions] o
    have "append_extra extra suggestions =
        (None, suggestions @ map defaulted_suggestion (advisory_objects client))"
      by simp
    with Inr show ?thesis by (simp add: Client advisory_pass_def)
  qed
qed

lemma advisory_pass_unreachable:
  assumes "advisory_failure client = Some (Unreachable e)"
  shows "advisory_pass self_name client suggestions context =
           on_llm_failed self_name e suggestions context"
  using assms
  by (auto simp: advisory_failure_def advisory_pass_def generate_remediation_suggestions_def
      split: llm_client.splits llm_reply.splits option.splits pyval.splits)

lemma advisory_pass_swallowed:
  assumes "advisory_failure (Client model_name reply) = Some MalformedResponse
           \<or> advisory_failure (Client model_name reply) = Some WrongShape"
  shows "advisory_pass self_name (Client model_name reply) suggestions context =
           (suggestions,
            map_option (\<lambda>c. log_event c self_name ''llm_enhanced''
                               [(''added_count'', PInt 0), (''model'', PStr model_name)])
              context)"
proof -
  from assms have "generate_remediation_suggestions reply = Inr []"
    by (auto simp: advisory_failure_def generate_remediation_suggestions_def
        split: llm_reply.splits option.splits pyval.splits)
  then show ?thesis by (simp add: advisory_pass_def)
qed

lemma advisory_failure_no_objects:
  "advisory_failure client = Some f \<Longrightarrow> advisory_objects client = []"
  by (auto simp: advisory_failure_def advisory_objects_def
      split: llm_client.splits llm_reply.splits option.splits pyval.splits)

lemma remediation_agent_run_suggestions:
  "fst (remediation_agent_run self_name client arch report context) =
     rule_based_suggestions arch report @ map defaulted_suggestion (advisory_objects client)"
proof -
  let ?c1 = "map_option
              (\<lambda>c. log_event c self_name ''start''
                     [(''system_name'', PStr (Architecture.system_name arch)),
                      (''overall_resilience'', PFloat (overall_resilience_score report))])
              context"
  have "fst (remediation_agent_run self_name client arch report context) =
      fst (advisory_pass self_name client (rule_based_suggestions arch report) ?c1)"
    by (simp add: remediation_agent_run_def Let_def split: prod.splits)
  then show ?thesis by (simp only: advisory_pass_suggestions)
qed

lemma remediation_agent_run_unreachable:
  assumes "advisory_failure client = Some (Unreachable e)"
  shows "logged (remediation_agent_run self_name client arch report (Some c)) =
     Some (events c @ [start_event self_name arch report, llm_failed_event self_name e,
                       done_event self_name (length (rule_based_suggestions arch report))])"
  by (simp add: logged_def remediation_agent_run_def Let_def
      advisory_pass_unreachable [OF assms] on_llm_failed_def log_event_def
      start_event_def llm_failed_event_def done_event_def)

lemma remediation_agent_run_swallowed:
  assumes "advisory_failure (Client model_name reply) = Some MalformedResponse
           \<or> advisory_failure (Client model_name reply) = Some WrongShape"
  shows "logged (remediation_agent_run self_name (Client model_name reply) arch report (Some c)) =
     Some (events c @ [start_event self_name arch report,
                       llm_enhanced_event self_name 0 model_name,
                       done_event self_name (length (rule_based_suggestions arch report))])"
  by (simp add: logged_def remediation_agent_run_def Let_def
      advisory_pass_swallowed [OF assms] log_event_def
      start_event_def llm_enhanced_event_def done_event_def)

lemma remediation_agent_run_skipped:
  "logged (remediation_agent_run self_name NoLLMClient arch report (Some c)) =
     Some (events c @ [start_event self_name arch report,
                       done_event self_name (length (rule_based_suggestions arch report))])"
  by (simp add: logged_def remediation_agent_run_def Let_def advisory_pass_def log_event_def
      start_event_def done_event_def)

lemma remediation_agent_run_no_context:
  "snd (remediation_agent_run self_name client arch report None) = None"
  by (simp add: remediation_agent_run_def Let_def advisory_pass_def on_llm_failed_def
      split: prod.splits llm_client.splits sum.splits option.splits)

section \<open>The claims\<close>

text \<open>
  C1. In the worked architecture (a public gateway \<open>G\<close> that depends on a service \<open>S\<close> of
  medium criticality, which depends on a database \<open>D\<close> of high criticality), the failure
  of \<open>D\<close> impacts \<open>D\<close>, \<open>G\<close> and \<open>S\<close>, is visible to users, and has severity \<open>9.0\<close>.
\<close>

theorem worked_scenario:
  "simulate_failure worked_architecture ''D'' =
     Some (Inr \<lparr>FailureResult.failed_component = ''D'',
                FailureResult.impacted_components = [''D'', ''G'', ''S''],
                FailureResult.user_visible_impact = True,
                FailureResult.severity_score = 9,
                FailureResult.result_notes = ''User-facing components are affected.''\<rparr>)"
  by code_simp

text \<open>
  C2. For every architecture and every failed component present in it, the impacted
  components that \<open>simulate_failure\<close> returns are exactly the components from which the
  failed one is reached along \<open>depends_on\<close> (its reflexive-transitive closure in the
  reverse dependency graph), as a sorted list without repetition; the failed component
  is among them, and it is alone when no other component transitively depends on it.
\<close>

theorem impacted_is_reverse_closure:
  assumes "failed \<in> set (map fst (components arch))"
  shows "\<exists>r. simulate_failure arch failed = Some (Inr r)
           \<and> set (FailureResult.impacted_components r) =
               ((depends_directly arch)\<inverse>)\<^sup>* `` {failed}
           \<and> sorted (FailureResult.impacted_components r)
           \<and> distinct (FailureResult.impacted_components r)
           \<and> failed \<in> set (FailureResult.impacted_components r)
           \<and> ((\<forall>y. (y, failed) \<in> (depends_directly arch)\<^sup>+ \<longrightarrow> y = failed) \<longrightarrow>
                set (FailureResult.impacted_components r) = {failed})"
proof -
  from assms have "failed \<in> fst ` set (components arch)" by simp
  from simulate_failure_known [OF this] obtain impacted score where
    s: "set impacted = ((depends_directly arch)\<inverse>)\<^sup>* `` {failed}"
    and d: "distinct impacted"
    and r: "simulate_failure arch failed =
             Some (Inr \<lparr>FailureResult.failed_component = failed,
                        FailureResult.impacted_components = sort impacted,
                        FailureResult.user_visible_impact =
                          (\<exists>nm \<in> set (get_public_entrypoints arch). nm \<in> set impacted),
                        FailureResult.severity_score = score,
                        FailureResult.result_notes =
                          (if \<exists>nm \<in> set (get_public_entrypoints arch). nm \<in> set impacted
                           then ''User-facing components are affected.''
                           else ''No direct impact on public entrypoints.'')\<rparr>)"
    by (elim exE conjE) (rule that)
  let ?r = "\<lparr>FailureResult.failed_component = failed,
                        FailureResult.impacted_components = sort impacted,
                        FailureResult.user_visible_impact =
                          (\<exists>nm \<in> set (get_public_entrypoints arch). nm \<in> set impacted),
                        FailureResult.severity_score = score,
                        FailureResult.result_notes =
                          (if \<exists>nm \<in> set (get_public_entrypoints arch). nm \<in> set impacted
                           then ''User-facing components are affected.''
                           else ''No direct impact on public entrypoints.'')\<rparr>"
  have e: "FailureResult.impacted_components ?r = sort impacted" by simp
  have c1: "set (FailureResult.impacted_components ?r) = ((depends_directly arch)\<inverse>)\<^sup>* `` {failed}"
    unfolding e using s by simp
  have c2: "sorted (FailureResult.impacted_components ?r)" unfolding e by simp
  have c3: "distinct (FailureResult.impacted_components ?r)" unfolding e using d by simp
  have c4: "failed \<in> set (FailureResult.impacted_components ?r)" unfolding c1 by simp
  have c5: "(\<forall>y. (y, failed) \<in> (depends_directly arch)\<^sup>+ \<longrightarrow> y = failed) \<longrightarrow>
                set (FailureResult.impacted_components ?r) = {failed}"
  proof
    assume a: "\<forall>y. (y, failed) \<in> (depends_directly arch)\<^sup>+ \<longrightarrow> y = failed"
    have "y = failed" if "(failed, y) \<in> ((depends_directly arch)\<inverse>)\<^sup>*" for y
    proof -
      from that have "(y, failed) \<in> (depends_directly arch)\<^sup>*"
        by (simp add: rtrancl_converse)
      then have "y = failed \<or> (y, failed) \<in> (depends_directly arch)\<^sup>+"
        by (auto simp: rtrancl_eq_or_trancl)
      with a show ?thesis by blast
    qed
    then have "((depends_directly arch)\<inverse>)\<^sup>* `` {failed} \<subseteq> {failed}" by blast
    moreover have "failed \<in> ((depends_directly arch)\<inverse>)\<^sup>* `` {failed}" by simp
    ultimately have "((depends_directly arch)\<inverse>)\<^sup>* `` {failed} = {failed}" by blast
    then show "set (FailureResult.impacted_components ?r) = {failed}" unfolding c1 .
  qed
  show ?thesis
    by (intro exI conjI; (rule r c1 c2 c3 c4 c5))
qed

theorem impacted_is_reverse_closure_witness:
  "''G'' \<in> set (map fst (components worked_architecture))
   \<and> {y. (y, ''G'') \<in> (depends_directly worked_architecture)\<^sup>+} = {}
   \<and> (\<exists>r. simulate_failure worked_architecture ''G'' = Some (Inr r)
          \<and> set (FailureResult.impacted_components r) = {''G''}
          \<and> sorted (FailureResult.impacted_components r))"
proof -
  have h1: "''G'' \<in> set (map fst (components worked_architecture))"
    by (simp add: worked_architecture_def)
  have h2: "{y. (y, ''G'') \<in> (depends_directly worked_architecture)\<^sup>+} = {}"
    using no_direct_no_transitive [of "''G''" "depends_directly worked_architecture"]
    by (simp add: nothing_depends_on_G)
  then have h3: "\<forall>y. (y, ''G'') \<in> (depends_directly worked_architecture)\<^sup>+ \<longrightarrow> y = ''G''"
    by simp
  from impacted_is_reverse_closure [OF h1] obtain r where
    a: "simulate_failure worked_architecture ''G'' = Some (Inr r)"
    and b: "sorted (FailureResult.impacted_components r)"
    and c: "(\<forall>y. (y, ''G'') \<in> (depends_directly worked_architecture)\<^sup>+ \<longrightarrow> y = ''G'') \<longrightarrow>
              set (FailureResult.impacted_components r) = {''G''}"
    by (elim exE conjE) (rule that)
  from c h3 have d: "set (FailureResult.impacted_components r) = {''G''}" by (rule mp)
  show ?thesis
    by (intro conjI exI; (rule h1 h2 a d b))
qed

text \<open>
  C8. The scenario selector returns the components of a critical type (database, gateway,
  external\_api, queue) in the order of the architecture, or every component in that
  order when there is none; for an architecture with a component the list is not empty.
  The selector reads no key and divides by nothing: it has no failing branch.
\<close>

theorem scenario_selector:
  "generate_failure_scenarios arch =
     (if critical_names arch = [] then map fst (components arch) else critical_names arch)
   \<and> (components arch \<noteq> [] \<longrightarrow> generate_failure_scenarios arch \<noteq> [])"
  by (simp add: generate_failure_scenarios_def collect_critical_eq critical_names_def Let_def)

theorem scenario_selector_witness:
  "components worked_architecture \<noteq> []
   \<and> generate_failure_scenarios worked_architecture = [''G'', ''D'']
   \<and> generate_failure_scenarios worked_architecture \<noteq> []"
  using scenario_selector [of worked_architecture]
  by (simp add: worked_architecture_def critical_names_def critical_types_def)

text \<open>
  C4. For every architecture, \<open>build_dependency_graphs\<close> returns (it never raises, also
  with dangling dependencies) a forward graph whose keys are the names of the components
  and a reverse graph whose keys include them and every dependency target, so a target
  that names no component is a key of the reverse graph.
\<close>

theorem build_dependency_graphs_keys:
  "\<exists>forward_graph reverse_graph.
      build_dependency_graphs arch = Inr (forward_graph, reverse_graph)
    \<and> set (map fst forward_graph) = set (map fst (components arch))
    \<and> set (map fst (components arch)) \<subseteq> set (map fst reverse_graph)
    \<and> (\<forall>(nm, cmp) \<in> set (components arch).
          set (depends_on cmp) \<subseteq> set (map fst reverse_graph))"
proof -
  from build_dependency_graphs_ok [of arch] obtain fw rv where
    a: "build_dependency_graphs arch = Inr (fw, rv)"
    and b: "fst ` set fw = fst ` set (components arch)"
    and c: "fst ` set rv = fst ` set (components arch)
          \<union> (\<Union>(nm, c) \<in> set (components arch). set (depends_on c))"
    by (elim exE conjE) (rule that)
  have b': "set (map fst fw) = set (map fst (components arch))" using b by simp
  have c1: "set (map fst (components arch)) \<subseteq> set (map fst rv)"
    unfolding set_map c by (rule Un_upper1)
  have c2: "\<forall>(nm, cmp) \<in> set (components arch). set (depends_on cmp) \<subseteq> set (map fst rv)"
    unfolding set_map c by blast
  show ?thesis
    by (intro exI conjI; (rule a b' c1 c2))
qed

theorem build_dependency_graphs_keys_witness:
  "(''A'', \<lparr>name = ''A'', ctype = ''service'', public = False,
            depends_on = [''ghost''], criticality = ''low''\<rparr>)
      \<in> set (components dangling_architecture)
   \<and> ''ghost'' \<notin> set (map fst (components dangling_architecture))
   \<and> (\<exists>forward_graph reverse_graph.
         build_dependency_graphs dangling_architecture = Inr (forward_graph, reverse_graph)
       \<and> set (map fst forward_graph) = {''A''}
       \<and> ''A'' \<in> set (map fst reverse_graph)
       \<and> ''ghost'' \<in> set (map fst reverse_graph))"
proof -
  let ?c = "\<lparr>name = ''A'', ctype = ''service'', public = False,
            depends_on = [''ghost''], criticality = ''low''\<rparr>"
  have h1: "(''A'', ?c) \<in> set (components dangling_architecture)"
    by (simp add: dangling_architecture_def)
  have h2: "''ghost'' \<notin> set (map fst (components dangling_architecture))"
    by (simp add: dangling_architecture_def)
  have k: "set (map fst (components dangling_architecture)) = {''A''}"
    by (simp add: dangling_architecture_def)
  from build_dependency_graphs_keys [of dangling_architecture] obtain fw rv where
    a: "build_dependency_graphs dangling_architecture = Inr (fw, rv)"
    and b: "set (map fst fw) = set (map fst (components dangling_architecture))"
    and c: "set (map fst (components dangling_architecture)) \<subseteq> set (map fst rv)"
    and d: "\<forall>(nm, cmp) \<in> set (components dangling_architecture).
          set (depends_on cmp) \<subseteq> set (map fst rv)"
    by (elim exE conjE) (rule that)
  have b': "set (map fst fw) = {''A''}" using b k by simp
  have c': "''A'' \<in> set (map fst rv)" using c k by simp
  from d h1 have "set (depends_on ?c) \<subseteq> set (map fst rv)" by blast
  then have d': "''ghost'' \<in> set (map fst rv)" by simp
  show ?thesis
    by (intro conjI exI; (rule h1 h2 a b' c' d'))
qed

text \<open>
  C6. \<open>simulate_failure\<close> on a name that is no component of the architecture raises the
  \<open>ValueError\<close> that the component was not found; on a component of the architecture
  it returns a result; and every name that \<open>generate_failure_scenarios\<close> selects is a
  component, so each simulation of the pipeline returns a result.
\<close>

theorem simulate_failure_precondition:
  "(failed \<notin> set (map fst (components arch)) \<longrightarrow>
      simulate_failure arch failed = Some (Inl (ValueError (not_found_message failed))))
   \<and> (failed \<in> set (map fst (components arch)) \<longrightarrow>
      (\<exists>r. simulate_failure arch failed = Some (Inr r)))
   \<and> (\<forall>f \<in> set (generate_failure_scenarios arch).
        f \<in> set (map fst (components arch)) \<and> (\<exists>r. simulate_failure arch f = Some (Inr r)))"
proof -
  have known: "\<exists>r. simulate_failure arch f = Some (Inr r)"
    if "f \<in> fst ` set (components arch)" for f
  proof -
    from simulate_failure_known [OF that] obtain impacted score where
      "simulate_failure arch f =
             Some (Inr \<lparr>FailureResult.failed_component = f,
                        FailureResult.impacted_components = sort impacted,
                        FailureResult.user_visible_impact =
                          (\<exists>nm \<in> set (get_public_entrypoints arch). nm \<in> set impacted),
                        FailureResult.severity_score = score,
                        FailureResult.result_notes =
                          (if \<exists>nm \<in> set (get_public_entrypoints arch). nm \<in> set impacted
                           then ''User-facing components are affected.''
                           else ''No direct impact on public entrypoints.'')\<rparr>)"
      by (elim exE conjE) (rule that)
    then show ?thesis by (rule exI)
  qed
  have a: "failed \<notin> set (map fst (components arch)) \<longrightarrow>
      simulate_failure arch failed = Some (Inl (ValueError (not_found_message failed)))"
    using simulate_failure_unknown [of failed arch] by simp
  have b: "failed \<in> set (map fst (components arch)) \<longrightarrow>
      (\<exists>r. simulate_failure arch failed = Some (Inr r))"
    using known [of failed] by simp
  have c: "\<forall>f \<in> set (generate_failure_scenarios arch).
        f \<in> set (map fst (components arch)) \<and> (\<exists>r. simulate_failure arch f = Some (Inr r))"
  proof
    fix f assume "f \<in> set (generate_failure_scenarios arch)"
    with generate_failure_scenarios_existing [of arch]
    have m: "f \<in> fst ` set (components arch)" by (rule subsetD)
    from m have "f \<in> set (map fst (components arch))" by simp
    with known [OF m]
    show "f \<in> set (map fst (components arch)) \<and> (\<exists>r. simulate_failure arch f = Some (Inr r))"
      by (rule conjI [rotated])
  qed
  show ?thesis by (intro conjI; (rule a b c))
qed

theorem simulate_failure_precondition_witness:
  "''X'' \<notin> set (map fst (components worked_architecture))
   \<and> simulate_failure worked_architecture ''X'' =
       Some (Inl (ValueError (''Component '' @ [CHR 0x27] @ ''X'' @ [CHR 0x27]
                                @ '' not found in architecture.'')))
   \<and> ''S'' \<in> set (map fst (components worked_architecture))
   \<and> (\<exists>r. simulate_failure worked_architecture ''S'' = Some (Inr r))
   \<and> ''G'' \<in> set (generate_failure_scenarios worked_architecture)
   \<and> (\<exists>r. simulate_failure worked_architecture ''G'' = Some (Inr r))"
proof -
  have h1: "''X'' \<notin> set (map fst (components worked_architecture))"
    by (simp add: worked_architecture_def)
  have h2: "''S'' \<in> set (map fst (components worked_architecture))"
    by (simp add: worked_architecture_def)
  have h3: "''G'' \<in> set (generate_failure_scenarios worked_architecture)"
    by (simp add: generate_failure_scenarios_def collect_critical_eq Let_def
        worked_architecture_def critical_types_def)
  note t = simulate_failure_precondition
  from t [of "''X''" worked_architecture] h1
  have a: "simulate_failure worked_architecture ''X'' =
       Some (Inl (ValueError (''Component '' @ [CHR 0x27] @ ''X'' @ [CHR 0x27]
                                @ '' not found in architecture.'')))"
    by (simp add: not_found_message_def)
  from t [of "''S''" worked_architecture] h2
  have b: "\<exists>r. simulate_failure worked_architecture ''S'' = Some (Inr r)" by simp
  from t [of "''S''" worked_architecture] h3
  have c: "\<exists>r. simulate_failure worked_architecture ''G'' = Some (Inr r)" by blast
  show ?thesis by (intro conjI; (rule h1 a h2 b h3 c))
qed

text \<open>
  C9. For every architecture and every failed component present in it, every name that
  the traversal of \<open>simulate_failure\<close> collects is a component of the architecture (a
  dependency target that names no component is a key of the reverse graph, and is never
  reached), so no lookup of \<open>compute_severity\<close> raises \<open>KeyError\<close>.
\<close>

theorem impacted_are_real_components:
  assumes "failed \<in> set (map fst (components arch))"
  shows "\<exists>forward_graph reverse_graph impacted r.
      build_dependency_graphs arch = Inr (forward_graph, reverse_graph)
    \<and> traverse reverse_graph [failed] [] = Some impacted
    \<and> set impacted \<subseteq> set (map fst (components arch))
    \<and> (\<forall>nm \<in> set impacted. \<exists>cmp. map_of (components arch) nm = Some cmp)
    \<and> (\<forall>user_visible. \<exists>score. compute_severity arch impacted user_visible = Inr score)
    \<and> simulate_failure arch failed = Some (Inr r)
    \<and> set (FailureResult.impacted_components r) = set impacted"
proof -
  from assms have "failed \<in> fst ` set (components arch)" by simp
  note k = this
  from simulate_failure_known [OF k] obtain fw rv impacted score where
    b: "build_dependency_graphs arch = Inr (fw, rv)"
    and t: "traverse rv [failed] [] = Some impacted"
    and s: "set impacted = ((depends_directly arch)\<inverse>)\<^sup>* `` {failed}"
    and r: "simulate_failure arch failed =
             Some (Inr \<lparr>FailureResult.failed_component = failed,
                        FailureResult.impacted_components = sort impacted,
                        FailureResult.user_visible_impact =
                          (\<exists>nm \<in> set (get_public_entrypoints arch). nm \<in> set impacted),
                        FailureResult.severity_score = score,
                        FailureResult.result_notes =
                          (if \<exists>nm \<in> set (get_public_entrypoints arch). nm \<in> set impacted
                           then ''User-facing components are affected.''
                           else ''No direct impact on public entrypoints.'')\<rparr>)"
    by (elim exE conjE) (rule that)
  have sub: "set impacted \<subseteq> fst ` set (components arch)"
    unfolding s using impacted_are_components [OF k] by blast
  then have c1: "set impacted \<subseteq> set (map fst (components arch))" by simp
  have c2: "\<forall>nm \<in> set impacted. \<exists>cmp. map_of (components arch) nm = Some cmp"
  proof
    fix nm assume "nm \<in> set impacted"
    with sub have "nm \<in> fst ` set (components arch)" by (rule subsetD)
    then show "\<exists>cmp. map_of (components arch) nm = Some cmp"
      by (cases "map_of (components arch) nm") (simp_all add: map_of_eq_None_iff)
  qed
  have c3: "\<forall>user_visible. \<exists>score. compute_severity arch impacted user_visible = Inr score"
    using compute_severity_ok [OF sub] by (rule allI)
  have c4: "set (FailureResult.impacted_components
              \<lparr>FailureResult.failed_component = failed,
                        FailureResult.impacted_components = sort impacted,
                        FailureResult.user_visible_impact =
                          (\<exists>nm \<in> set (get_public_entrypoints arch). nm \<in> set impacted),
                        FailureResult.severity_score = score,
                        FailureResult.result_notes =
                          (if \<exists>nm \<in> set (get_public_entrypoints arch). nm \<in> set impacted
                           then ''User-facing components are affected.''
                           else ''No direct impact on public entrypoints.'')\<rparr>) = set impacted"
    by simp
  show ?thesis
    by (intro exI conjI; (rule b t c1 c2 c3 r c4))
qed

theorem impacted_are_real_components_witness:
  "''A'' \<in> set (map fst (components dangling_architecture))
   \<and> (\<exists>forward_graph reverse_graph impacted r.
        build_dependency_graphs dangling_architecture = Inr (forward_graph, reverse_graph)
      \<and> ''ghost'' \<in> set (map fst reverse_graph)
      \<and> traverse reverse_graph [''A''] [] = Some impacted
      \<and> ''ghost'' \<notin> set impacted
      \<and> simulate_failure dangling_architecture ''A'' = Some (Inr r)
      \<and> ''ghost'' \<notin> set (FailureResult.impacted_components r))"
proof -
  have h: "''A'' \<in> set (map fst (components dangling_architecture))"
    by (simp add: dangling_architecture_def)
  have g: "''ghost'' \<notin> set (map fst (components dangling_architecture))"
    by (simp add: dangling_architecture_def)
  from impacted_are_real_components [OF h] obtain fw rv impacted r where
    b: "build_dependency_graphs dangling_architecture = Inr (fw, rv)"
    and t: "traverse rv [''A''] [] = Some impacted"
    and c: "set impacted \<subseteq> set (map fst (components dangling_architecture))"
    and r: "simulate_failure dangling_architecture ''A'' = Some (Inr r)"
    and e: "set (FailureResult.impacted_components r) = set impacted"
    by (elim exE conjE) (rule that)
  have "build_dependency_graphs dangling_architecture =
          Inr ([(''A'', [''ghost''])], [(''A'', []), (''ghost'', [''A''])])"
    by code_simp
  with b have "rv = [(''A'', []), (''ghost'', [''A''])]" by simp
  then have p: "''ghost'' \<in> set (map fst rv)" by simp
  from c g have n: "''ghost'' \<notin> set impacted" by (rule contra_subsetD)
  then have n': "''ghost'' \<notin> set (FailureResult.impacted_components r)" unfolding e .
  show ?thesis
    by (intro conjI exI; (rule h b p t n r n'))
qed

text \<open>
  C10. \<open>simulate_failure\<close> terminates on every architecture and every name, whatever
  the dependency relation (cycles and self-dependencies included): the worklist loop
  ends on every reverse graph and every stack, and it adds no name twice.
\<close>

theorem simulate_failure_terminates:
  "simulate_failure arch failed \<noteq> None
   \<and> (\<exists>impacted. traverse reverse_graph stack [] = Some impacted \<and> distinct impacted)"
proof
  show "simulate_failure arch failed \<noteq> None"
  proof (cases "failed \<in> fst ` set (components arch)")
    case True
    from simulate_failure_known [OF True] obtain impacted score where
      "simulate_failure arch failed =
             Some (Inr \<lparr>FailureResult.failed_component = failed,
                        FailureResult.impacted_components = sort impacted,
                        FailureResult.user_visible_impact =
                          (\<exists>nm \<in> set (get_public_entrypoints arch). nm \<in> set impacted),
                        FailureResult.severity_score = score,
                        FailureResult.result_notes =
                          (if \<exists>nm \<in> set (get_public_entrypoints arch). nm \<in> set impacted
                           then ''User-facing components are affected.''
                           else ''No direct impact on public entrypoints.'')\<rparr>)"
      by (elim exE conjE) (rule that)
    then show ?thesis by simp
  next
    case False
    then show ?thesis by (simp add: simulate_failure_unknown)
  qed
next
  from traverse_terminates [of reverse_graph stack "[]"] obtain impacted where
    t: "traverse reverse_graph stack [] = Some impacted" ..
  from traverse_distinct [OF t] have "distinct impacted" by simp
  with t show "\<exists>impacted. traverse reverse_graph stack [] = Some impacted \<and> distinct impacted"
    by blast
qed

theorem simulate_failure_terminates_witness:
  "simulate_failure cyclic_architecture ''A'' \<noteq> None
   \<and> (\<exists>impacted. traverse [(''A'', [''A'', ''B'']), (''B'', [''A''])] [''A''] [] = Some impacted
         \<and> distinct impacted)"
  by (rule simulate_failure_terminates)

text \<open>
  C5. For every architecture, no two risks that \<open>analyze_security\<close> returns have the same
  component and risk type, and the risks follow the rule table, component after component
  in the order of the architecture: the list is a subsequence of the table read along the
  components, and it is the whole of it when the components have different names.
\<close>

theorem security_risks_unique_and_ordered:
  "distinct (map risk_key (analyze_security arch))
   \<and> subseq (analyze_security arch) (concat (map table_risks (map snd (components arch))))
   \<and> (distinct (map (name \<circ> snd) (components arch)) \<longrightarrow>
        analyze_security arch = concat (map table_risks (map snd (components arch))))"
  using analyze_security_distinct [of arch] analyze_security_subseq [of arch]
    analyze_security_table [of arch]
  by (intro conjI impI)

theorem security_risks_unique_and_ordered_witness:
  "distinct (map (name \<circ> snd) (components worked_architecture))
   \<and> analyze_security worked_architecture =
       [dos_risk \<lparr>name = ''G'', ctype = ''gateway'', public = True,
                  depends_on = [''S''], criticality = ''medium''\<rparr>]
   \<and> distinct (map risk_key (analyze_security twin_architecture))"
proof -
  have h: "distinct (map (name \<circ> snd) (components worked_architecture))"
    by (simp add: worked_architecture_def)
  from security_risks_unique_and_ordered [of worked_architecture] h
  have "analyze_security worked_architecture =
          concat (map table_risks (map snd (components worked_architecture)))"
    by blast
  then have a: "analyze_security worked_architecture =
       [dos_risk \<lparr>name = ''G'', ctype = ''gateway'', public = True,
                  depends_on = [''S''], criticality = ''medium''\<rparr>]"
    by (simp add: worked_architecture_def table_risks_def)
  from security_risks_unique_and_ordered [of twin_architecture]
  have b: "distinct (map risk_key (analyze_security twin_architecture))" by (rule conjunct1)
  show ?thesis by (intro conjI; (rule h a b))
qed

text \<open>
  C3. \<open>ReportingAgent.run\<close> on scenarios whose severities are severities of the data
  model (floats from 0 to 10 with two decimals, as \<open>simulate_failure\<close> makes them): the
  resilience score is \<open>round(clamp(10 - mean(severities), 0, 10), 2)\<close> and the worst-case
  severity is \<open>max(severities)\<close>, whatever the risks and the run context are; with no
  scenario the resilience score is \<open>10.0\<close> and the worst-case severity \<open>0.0\<close>. The
  operations of the formula are those of the floats. The code has no upper clamp and no
  need of one, the mean of such severities being no less than 0; it rounds the greatest
  severity, which has two decimals already.
\<close>

theorem reporting_scores:
  "(scenario_list = [] \<longrightarrow>
      overall_resilience_score
        (fst (reporting_agent_run self_name arch scenario_list risks context)) = 10
    \<and> worst_case_severity
        (fst (reporting_agent_run self_name arch scenario_list risks context)) = 0)
   \<and> (scenario_list \<noteq> []
        \<and> (\<forall>s \<in> set scenario_list. valid_severity (ScenarioSummary.severity s)) \<longrightarrow>
      overall_resilience_score
        (fst (reporting_agent_run self_name arch scenario_list risks context)) =
        spec_resilience (map ScenarioSummary.severity scenario_list)
    \<and> worst_case_severity
        (fst (reporting_agent_run self_name arch scenario_list risks context)) =
        Max (set (map ScenarioSummary.severity scenario_list)))"
proof (intro conjI impI)
  assume "scenario_list = []"
  then show "overall_resilience_score
        (fst (reporting_agent_run self_name arch scenario_list risks context)) = 10"
    and "worst_case_severity
        (fst (reporting_agent_run self_name arch scenario_list risks context)) = 0"
    by (simp_all add: reporting_report_empty)
next
  assume a: "scenario_list \<noteq> []
        \<and> (\<forall>s \<in> set scenario_list. valid_severity (ScenarioSummary.severity s))"
  then have ne: "scenario_list \<noteq> []" by (rule conjunct1)
  then have ne': "map ScenarioSummary.severity scenario_list \<noteq> []" by simp
  from a have v: "\<forall>x \<in> set (map ScenarioSummary.severity scenario_list). valid_severity x"
    by simp
  then have "\<forall>x \<in> set (map ScenarioSummary.severity scenario_list). 0 \<le> x"
    by (simp add: valid_severity_def)
  then have "0 \<le> mean (map ScenarioSummary.severity scenario_list)" by (rule mean_nonneg)
  then have "spec_resilience (map ScenarioSummary.severity scenario_list) =
      round_float (max 0 (fsub 10 (mean (map ScenarioSummary.severity scenario_list))))"
    by (simp only: spec_resilience_def clamp_lower_only)
  then show "overall_resilience_score
        (fst (reporting_agent_run self_name arch scenario_list risks context)) =
        spec_resilience (map ScenarioSummary.severity scenario_list)"
    by (simp add: reporting_report_nonempty [OF ne])
  from ne' v have "round_float (Max (set (map ScenarioSummary.severity scenario_list))) =
      Max (set (map ScenarioSummary.severity scenario_list))"
    by (rule Max_valid_severity)
  then show "worst_case_severity
        (fst (reporting_agent_run self_name arch scenario_list risks context)) =
        Max (set (map ScenarioSummary.severity scenario_list))"
    by (simp add: reporting_report_nonempty [OF ne])
qed

theorem reporting_scores_witness:
  "scenario_with ''G'' (3 / 2) # replicate 19 (scenario_with ''S'' 1) \<noteq> []
   \<and> valid_severity (ScenarioSummary.severity (scenario_with ''G'' (3 / 2)))
   \<and> valid_severity (ScenarioSummary.severity (scenario_with ''S'' 1))
   \<and> overall_resilience_score
       (fst (reporting_agent_run ''reporting_agent'' worked_architecture
               (scenario_with ''G'' (3 / 2) # replicate 19 (scenario_with ''S'' 1)) [] None)) =
       fl (897 / 100)
   \<and> worst_case_severity
       (fst (reporting_agent_run ''reporting_agent'' worked_architecture
               (scenario_with ''G'' (3 / 2) # replicate 19 (scenario_with ''S'' 1)) [] None)) =
       3 / 2
   \<and> overall_resilience_score
       (fst (reporting_agent_run ''reporting_agent'' worked_architecture [] [] None)) = 10
   \<and> worst_case_severity
       (fst (reporting_agent_run ''reporting_agent'' worked_architecture [] [] None)) = 0"
proof -
  let ?l = "scenario_with ''G'' (3 / 2) # replicate 19 (scenario_with ''S'' 1)"
  note t = reporting_scores [of ?l "''reporting_agent''" worked_architecture "[]" None]
  note e = reporting_scores [of "[]" "''reporting_agent''" worked_architecture "[]" None]
  have h0: "?l \<noteq> []" by simp
  have h1: "valid_severity (ScenarioSummary.severity (scenario_with ''G'' (3 / 2)))"
    and h2: "valid_severity (ScenarioSummary.severity (scenario_with ''S'' 1))"
    by code_simp+
  have v: "\<forall>s \<in> set ?l. valid_severity (ScenarioSummary.severity s)"
    using h1 h2 by simp
  have s: "spec_resilience (map ScenarioSummary.severity ?l) = fl (897 / 100)" by code_simp
  have m: "Max (set (map ScenarioSummary.severity ?l)) = 3 / 2" by code_simp
  from t h0 v have a: "overall_resilience_score
       (fst (reporting_agent_run ''reporting_agent'' worked_architecture ?l [] None)) =
       fl (897 / 100)"
    unfolding s by blast
  from t h0 v have b: "worst_case_severity
       (fst (reporting_agent_run ''reporting_agent'' worked_architecture ?l [] None)) = 3 / 2"
    unfolding m by blast
  from e have x: "overall_resilience_score
       (fst (reporting_agent_run ''reporting_agent'' worked_architecture [] [] None)) = 10"
    and y: "worst_case_severity
       (fst (reporting_agent_run ''reporting_agent'' worked_architecture [] [] None)) = 0"
    by simp_all
  show ?thesis by (intro conjI; (rule h0 h1 h2 a b x y))
qed

text \<open>
  C7, as stated, fails. A response of the collaborator that is no JSON, or that is JSON
  but no array, is a failure that \<open>generate_remediation_suggestions\<close> answers with the
  empty list: no exception reaches \<open>RemediationAgent.run\<close>, whose log then holds the event
  \<open>llm_enhanced\<close> with \<open>added_count = 0\<close>, as for a collaborator with nothing to add, and
  no event \<open>llm_failed\<close>. The error is recorded nowhere.
\<close>

theorem advisory_failure_not_logged:
  "advisory_failure (Client ''gemini-2.5-flash-lite'' (ResponseText None)) =
     Some MalformedResponse
   \<and> logged (remediation_agent_run ''remediation_agent''
               (Client ''gemini-2.5-flash-lite'' (ResponseText None))
               worked_architecture sample_report (Some sample_context)) =
       Some [start_event ''remediation_agent'' worked_architecture sample_report,
             llm_enhanced_event ''remediation_agent'' 0 ''gemini-2.5-flash-lite'',
             done_event ''remediation_agent'' 3]
   \<and> advisory_failure
         (Client ''gemini-2.5-flash-lite''
            (ResponseText (Some (PDict [(''title'', PStr ''Add a cache'')])))) =
       Some WrongShape
   \<and> logged (remediation_agent_run ''remediation_agent''
               (Client ''gemini-2.5-flash-lite''
                  (ResponseText (Some (PDict [(''title'', PStr ''Add a cache'')]))))
               worked_architecture sample_report (Some sample_context)) =
       Some [start_event ''remediation_agent'' worked_architecture sample_report,
             llm_enhanced_event ''remediation_agent'' 0 ''gemini-2.5-flash-lite'',
             done_event ''remediation_agent'' 3]
   \<and> AgentEvent.step (llm_enhanced_event ''remediation_agent'' 0 ''gemini-2.5-flash-lite'') =
       ''llm_enhanced''"
  by code_simp

text \<open>
  C7, amended. The advisory pass of \<open>RemediationAgent.run\<close> never raises to the caller:
  the run returns the rule-based suggestions followed by one suggestion for each object
  of the array that the collaborator returned, a missing field of an object taking its
  default (category \<open>resilience\<close>, target \<open>system\<close>, priority \<open>medium\<close>, title
  \<open>AI-suggested remediation\<close>, details empty). On every failure of the collaborator the
  suggestions are the rule-based ones alone. Of the failures, the run logs those that
  raise an exception (the collaborator cannot be reached): the events it adds to the run
  context are \<open>start\<close>, \<open>llm_failed\<close> with the message of the exception, and \<open>done\<close>. A
  malformed response and a response of the wrong shape are not logged as failures: the
  events are \<open>start\<close>, \<open>llm_enhanced\<close> with \<open>added_count = 0\<close> and the name of the model,
  and \<open>done\<close>. A caller that gives no run context gets none back. The exceptions are
  those of class \<open>Exception\<close>, which \<open>except Exception\<close> catches.
\<close>

theorem advisory_pass_best_effort:
  "fst (remediation_agent_run self_name client arch report context) =
     rule_based_suggestions arch report @ map defaulted_suggestion (advisory_objects client)
   \<and> (advisory_failure client = Some f \<longrightarrow>
        fst (remediation_agent_run self_name client arch report context) =
          rule_based_suggestions arch report)
   \<and> (advisory_failure client = Some (Unreachable e) \<longrightarrow>
        logged (remediation_agent_run self_name client arch report (Some c)) =
          Some (events c
                @ [start_event self_name arch report, llm_failed_event self_name e,
                   done_event self_name (length (rule_based_suggestions arch report))]))
   \<and> (client = Client model_name reply
        \<and> (advisory_failure client = Some MalformedResponse
             \<or> advisory_failure client = Some WrongShape) \<longrightarrow>
        logged (remediation_agent_run self_name client arch report (Some c)) =
          Some (events c
                @ [start_event self_name arch report,
                   llm_enhanced_event self_name 0 model_name,
                   done_event self_name (length (rule_based_suggestions arch report))]))
   \<and> snd (remediation_agent_run self_name client arch report None) = None
   \<and> defaulted_suggestion [] =
       \<lparr>category = PStr ''resilience'', target = PStr ''system'', priority = PStr ''medium'',
        title = PStr ''AI-suggested remediation'', details = PStr ''''\<rparr>"
proof (intro conjI impI)
  show "fst (remediation_agent_run self_name client arch report context) =
     rule_based_suggestions arch report @ map defaulted_suggestion (advisory_objects client)"
    by (rule remediation_agent_run_suggestions)
next
  assume f: "advisory_failure client = Some f"
  show "fst (remediation_agent_run self_name client arch report context) =
          rule_based_suggestions arch report"
    by (simp add: remediation_agent_run_suggestions advisory_failure_no_objects [OF f])
next
  assume "advisory_failure client = Some (Unreachable e)"
  then show "logged (remediation_agent_run self_name client arch report (Some c)) =
          Some (events c
                @ [start_event self_name arch report, llm_failed_event self_name e,
                   done_event self_name (length (rule_based_suggestions arch report))])"
    by (rule remediation_agent_run_unreachable)
next
  assume a: "client = Client model_name reply
        \<and> (advisory_failure client = Some MalformedResponse
             \<or> advisory_failure client = Some WrongShape)"
  then have c: "client = Client model_name reply" by (rule conjunct1)
  from a have "advisory_failure (Client model_name reply) = Some MalformedResponse
             \<or> advisory_failure (Client model_name reply) = Some WrongShape"
    by (simp only: c)
  then show "logged (remediation_agent_run self_name client arch report (Some c)) =
          Some (events c
                @ [start_event self_name arch report,
                   llm_enhanced_event self_name 0 model_name,
                   done_event self_name (length (rule_based_suggestions arch report))])"
    unfolding c by (rule remediation_agent_run_swallowed)
next
  show "snd (remediation_agent_run self_name client arch report None) = None"
    by (rule remediation_agent_run_no_context)
next
  show "defaulted_suggestion [] =
       \<lparr>category = PStr ''resilience'', target = PStr ''system'', priority = PStr ''medium'',
        title = PStr ''AI-suggested remediation'', details = PStr ''''\<rparr>"
    by (simp add: defaulted_suggestion_def field_or_def)
qed

theorem advisory_pass_best_effort_witness:
  "advisory_failure (Client ''gemini-2.5-flash-lite'' (GenerateRaises ''timeout'')) =
     Some (Unreachable ''timeout'')
   \<and> fst (remediation_agent_run ''remediation_agent''
             (Client ''gemini-2.5-flash-lite'' (GenerateRaises ''timeout''))
             worked_architecture sample_report (Some sample_context)) =
       rule_based_suggestions worked_architecture sample_report
   \<and> logged (remediation_agent_run ''remediation_agent''
               (Client ''gemini-2.5-flash-lite'' (GenerateRaises ''timeout''))
               worked_architecture sample_report (Some sample_context)) =
       Some [start_event ''remediation_agent'' worked_architecture sample_report,
             llm_failed_event ''remediation_agent'' ''timeout'',
             done_event ''remediation_agent'' 3]
   \<and> advisory_failure (Client ''gemini-2.5-flash-lite'' (ResponseText None)) =
       Some MalformedResponse
   \<and> fst (remediation_agent_run ''remediation_agent''
             (Client ''gemini-2.5-flash-lite'' (ResponseText None))
             worked_architecture sample_report (Some sample_context)) =
       rule_based_suggestions worked_architecture sample_report
   \<and> logged (remediation_agent_run ''remediation_agent''
               (Client ''gemini-2.5-flash-lite'' (ResponseText None))
               worked_architecture sample_report (Some sample_context)) =
       Some [start_event ''remediation_agent'' worked_architecture sample_report,
             llm_enhanced_event ''remediation_agent'' 0 ''gemini-2.5-flash-lite'',
             done_event ''remediation_agent'' 3]
   \<and> fst (remediation_agent_run ''remediation_agent''
             (Client ''gemini-2.5-flash-lite''
                (ResponseText (Some (PList [PDict [(''title'', PStr ''Add a cache'')], PInt 3]))))
             worked_architecture sample_report None) =
       rule_based_suggestions worked_architecture sample_report
       @ [\<lparr>category = PStr ''resilience'', target = PStr ''system'', priority = PStr ''medium'',
            title = PStr ''Add a cache'', details = PStr ''''\<rparr>]"
proof -
  let ?down = "Client ''gemini-2.5-flash-lite'' (GenerateRaises ''timeout'')"
  let ?bad = "Client ''gemini-2.5-flash-lite'' (ResponseText None)"
  let ?good = "Client ''gemini-2.5-flash-lite''
                (ResponseText (Some (PList [PDict [(''title'', PStr ''Add a cache'')], PInt 3])))"
  have n: "length (rule_based_suggestions worked_architecture sample_report) = 3"
    by code_simp
  have e: "events sample_context = []" by (simp add: sample_context_def)
  have h: "advisory_failure ?down = Some (Unreachable ''timeout'')"
    by (simp add: advisory_failure_def)
  note t = advisory_pass_best_effort [of "''remediation_agent''" ?down worked_architecture
      sample_report "Some sample_context" "Unreachable ''timeout''" "''timeout''" sample_context]
  from t h have a: "fst (remediation_agent_run ''remediation_agent'' ?down
             worked_architecture sample_report (Some sample_context)) =
       rule_based_suggestions worked_architecture sample_report"
    by blast
  from t h have b: "logged (remediation_agent_run ''remediation_agent'' ?down
               worked_architecture sample_report (Some sample_context)) =
       Some [start_event ''remediation_agent'' worked_architecture sample_report,
             llm_failed_event ''remediation_agent'' ''timeout'',
             done_event ''remediation_agent'' 3]"
    by (simp add: n e)
  have h': "advisory_failure ?bad = Some MalformedResponse"
    by (simp add: advisory_failure_def)
  note u = advisory_pass_best_effort [of "''remediation_agent''" ?bad worked_architecture
      sample_report "Some sample_context" MalformedResponse _ sample_context
      "''gemini-2.5-flash-lite''" "ResponseText None"]
  from u h' have a': "fst (remediation_agent_run ''remediation_agent'' ?bad
             worked_architecture sample_report (Some sample_context)) =
       rule_based_suggestions worked_architecture sample_report"
    by blast
  from u h' have b': "logged (remediation_agent_run ''remediation_agent'' ?bad
               worked_architecture sample_report (Some sample_context)) =
       Some [start_event ''remediation_agent'' worked_architecture sample_report,
             llm_enhanced_event ''remediation_agent'' 0 ''gemini-2.5-flash-lite'',
             done_event ''remediation_agent'' 3]"
    by (simp add: n e)
  have o: "map defaulted_suggestion (advisory_objects ?good) =
      [\<lparr>category = PStr ''resilience'', target = PStr ''system'', priority = PStr ''medium'',
            title = PStr ''Add a cache'', details = PStr ''''\<rparr>]"
    by (simp add: advisory_objects_def defaulted_suggestion_def field_or_def)
  from advisory_pass_best_effort [of "''remediation_agent''" ?good worked_architecture
      sample_report None]
  have c: "fst (remediation_agent_run ''remediation_agent'' ?good
             worked_architecture sample_report None) =
       rule_based_suggestions worked_architecture sample_report
       @ [\<lparr>category = PStr ''resilience'', target = PStr ''system'', priority = PStr ''medium'',
            title = PStr ''Add a cache'', details = PStr ''''\<rparr>]"
    unfolding o by (rule conjunct1)
  show ?thesis by (intro conjI; (rule h a b h' a' b' c))
qed

end
